theory Spec2Isabelle
  imports Main "HOL-Library.Signed_Division"
begin

text \<open>
  A shallow embedding of the search core of BabChess, \<^verbatim>\<open>src/src/engine.cpp\<close>:
  \<^verbatim>\<open>Engine::search\<close>, \<^verbatim>\<open>Engine::stop\<close>, \<^verbatim>\<open>Engine::idSearch\<close>, \<^verbatim>\<open>Engine::pvSearch\<close>,
  \<^verbatim>\<open>Engine::qSearch\<close> and \<^verbatim>\<open>updatePv\<close>.

  The source file holds two revisions of \<^verbatim>\<open>engine.cpp\<close>, one after the other. The
  earlier one (lines 1-227) has no transposition table, no node types and returns the
  jittered value \<^verbatim>\<open>1-(sd.nbNodes & 2)\<close> at a drawn position. The later one (lines 228-516)
  is the one the specification calls the reference: it probes and stores the transposition
  table, distinguishes Root, PV and NonPV nodes and returns \<^verbatim>\<open>SCORE_DRAW\<close> at a drawn
  position. The definitions below embed the later revision, line by line.

  Conventions of the embedding.
  \<^item> \<^verbatim>\<open>Position\<close>, \<^verbatim>\<open>MovePicker\<close>, the transposition table, \<^verbatim>\<open>evaluate\<close> and the score
    constants are declared in headers that are not part of the sources. They are
    parameters: the fields of the record \<open>env\<close>, over an arbitrary type of positions
    \<open>'p\<close>, of moves \<open>'m\<close>, of tables \<open>'t\<close> and of table slots \<open>'s\<close>. Every theorem holds
    for every such environment.
  \<^item> \<^verbatim>\<open>Score\<close> values are modelled as \<open>int\<close>: the code only negates scores and adds or
    subtracts one or a ply, within \<open>\<plusminus>SCORE_INFINITE\<close>.
  \<^item> The members of \<^verbatim>\<open>Engine\<close> and of \<^verbatim>\<open>SearchData\<close> are passed in and returned
    explicitly. The template parameter \<^verbatim>\<open>Side Me\<close> is the argument \<open>me\<close>, \<^verbatim>\<open>NodeType NT\<close>
    the argument \<open>nt\<close>. The out-parameter \<^verbatim>\<open>pv\<close> is returned: both search functions clear
    it before anything else.
  \<^item> The enumeration callback (the lambda given to \<^verbatim>\<open>mp.enumerate\<close>) is the function
    \<open>pvVisit\<close> (\<open>qVisit\<close>): it returns \<open>True\<close> to continue and \<open>False\<close> to break, with the
    variables it captures by reference in a \<open>loopState\<close>. \<open>pvLoop\<close> (\<open>qLoop\<close>) is
    \<^verbatim>\<open>mp.enumerate\<close> itself, over the list of moves the picker yields.
  \<^item> Each function also returns the list of calls it made on its collaborators and of the
    child searches it started (\<open>r_acts\<close>, \<open>l_acts\<close>), a child search with its own list
    inside. This history is not in the source: it makes "is performed", "is computed"
    and "is stored" statable.
  \<^item> The search runs on one worker thread. The model is sequential: a \<^verbatim>\<open>stop()\<close> from
    another thread is represented by the value of \<open>aborted\<close> in the engine a function is
    called with. The wall clock is the parameter \<open>now\<close>, read at index \<open>clock\<close>, which
    advances at every poll of the limits.
\<close>

section \<open>Data model\<close>

text \<open>\<^verbatim>\<open>~Me\<close> is \<open>flipSide\<close>; \<^verbatim>\<open>PvNode\<close> and \<^verbatim>\<open>RootNode\<close> are the two
  compile-time constants of \<^verbatim>\<open>pvSearch\<close> (lines 312-313).\<close>

datatype side = WHITE | BLACK

fun flipSide :: "side \<Rightarrow> side" where
  "flipSide WHITE = BLACK"
| "flipSide BLACK = WHITE"

datatype nodeType = Root | PV | NonPV

definition PvNode :: "nodeType \<Rightarrow> bool" where
  "PvNode nt = (nt \<noteq> NonPV)"

definition RootNode :: "nodeType \<Rightarrow> bool" where
  "RootNode nt = (nt = Root)"

datatype bound = BOUND_NONE | BOUND_UPPER | BOUND_LOWER | BOUND_EXACT

datatype pickerMode = MAIN | QUIESCENCE

record 'm searchLimits =
  timeLeft :: "side \<Rightarrow> int"
  increment :: "side \<Rightarrow> int"
  movesToGo :: int
  maxDepth :: int
  maxNodes :: int
  searchMoves :: "'m list"

text \<open>
  \<^verbatim>\<open>SearchData\<close>: the fields the constructor initialises (lines 245-250). \<open>clock\<close> is the
  index of the next reading of the wall clock (see \<open>shouldStop\<close>); \<open>nbNodes\<close> is a counter
  that starts at zero and is only incremented.
\<close>

record ('p, 'm) searchData =
  position :: 'p
  limits :: "'m searchLimits"
  nbNodes :: nat
  startTime :: int
  allocatedTime :: int
  clock :: nat

text \<open>
  The members of \<^verbatim>\<open>Engine\<close> the search core reads or writes: the current position
  (\<^verbatim>\<open>position()\<close>), the table \<^verbatim>\<open>tt\<close> and the two flags.
\<close>

record ('p, 't) engine =
  rootPosition :: 'p
  tt :: 't
  aborted :: bool
  searching :: bool

text \<open>
  The collaborators, as parameters. \<open>mp_enumerate mode me pos ttMove\<close> is the sequence of
  moves \<^verbatim>\<open>MovePicker<mode, Me> mp(pos, ttMove)\<close> hands to the callback of \<^verbatim>\<open>mp.enumerate\<close>.
  \<open>tt_get\<close> returns the hit flag and the slot; the \<open>tte_\<close> functions read a slot of a table
  and \<open>tt_set\<close> writes one. \<open>uninitialised\<close> is the indeterminate value of a \<^verbatim>\<open>Score\<close> local
  that is declared without an initialiser (\<^verbatim>\<open>Score score;\<close> at line 369, \<^verbatim>\<open>Score bestScore;\<close>
  at line 281).
\<close>

record ('p, 'm, 't, 's) env =
  MAX_PLY :: int
  SCORE_INFINITE :: int
  SCORE_MATE :: int
  SCORE_DRAW :: int
  SCORE_NONE :: int
  MOVE_NONE :: 'm
  uninitialised :: int
  pos_getSideToMove :: "'p \<Rightarrow> side"
  pos_inCheck :: "'p \<Rightarrow> bool"
  pos_isFiftyMoveDraw :: "'p \<Rightarrow> bool"
  pos_isMaterialDraw :: "'p \<Rightarrow> bool"
  pos_isRepetitionDraw :: "'p \<Rightarrow> bool"
  pos_hash :: "'p \<Rightarrow> nat"
  pos_doMove :: "'p \<Rightarrow> 'm \<Rightarrow> 'p"
  pos_undoMove :: "'p \<Rightarrow> 'm \<Rightarrow> 'p"
  evaluate :: "side \<Rightarrow> 'p \<Rightarrow> int"
  mp_enumerate :: "pickerMode \<Rightarrow> side \<Rightarrow> 'p \<Rightarrow> 'm \<Rightarrow> 'm list"
  tt_get :: "'t \<Rightarrow> nat \<Rightarrow> bool \<times> 's"
  tte_depth :: "'t \<Rightarrow> 's \<Rightarrow> int"
  tte_score :: "'t \<Rightarrow> 's \<Rightarrow> int \<Rightarrow> int"
  tte_boundMatch :: "'t \<Rightarrow> 's \<Rightarrow> int \<Rightarrow> int \<Rightarrow> int \<Rightarrow> bool"
  tte_move :: "'t \<Rightarrow> 's \<Rightarrow> 'm"
  tt_set :: "'t \<Rightarrow> 's \<Rightarrow> nat \<Rightarrow> int \<Rightarrow> int \<Rightarrow> bound \<Rightarrow> 'm \<Rightarrow> int \<Rightarrow> int \<Rightarrow> bool \<Rightarrow> 't"
  tt_clear :: "'t \<Rightarrow> 't"
  tt_usage :: "'t \<Rightarrow> int"
  now :: "nat \<Rightarrow> int"

text \<open>
  The history of one call: \<open>Evaluate\<close> for \<^verbatim>\<open>evaluate<Me>(pos)\<close>, \<open>Probe\<close> for \<^verbatim>\<open>tt.get\<close>,
  \<open>Store\<close> for \<^verbatim>\<open>tt.set\<close> with its arguments (hash, depth, ply, bound, move, eval, score,
  pv flag), \<open>Enumerate\<close> for the construction of the move picker with its hint, \<open>DoMove\<close>
  and \<open>UndoMove\<close>, and \<open>CallPv\<close>, \<open>CallQ\<close> for a call of \<^verbatim>\<open>pvSearch\<close> or \<^verbatim>\<open>qSearch\<close> with
  its node type, alpha, beta, depth and ply and with the history of that call.
\<close>

datatype 'm action =
    Evaluate
  | Probe nat
  | Store nat int int bound 'm int int bool
  | Enumerate pickerMode 'm
  | DoMove 'm
  | UndoMove 'm
  | CallPv nodeType int int int int "'m action list"
  | CallQ int int int int "'m action list"

record ('p, 'm, 't) result =
  r_score :: int
  r_eng :: "('p, 't) engine"
  r_sd :: "('p, 'm) searchData"
  r_pv :: "'m list"
  r_acts :: "'m action list"

record ('p, 'm, 't) loopState =
  l_eng :: "('p, 't) engine"
  l_sd :: "('p, 'm) searchData"
  l_nbMoves :: nat
  l_bestScore :: int
  l_bestMove :: 'm
  l_alpha :: int
  l_pv :: "'m list"
  l_childPv :: "'m list"
  l_acts :: "'m action list"

section \<open>The search kernel\<close>

text \<open>
  Modelled from the spec: \<^verbatim>\<open>SearchData::shouldStop\<close> and \<^verbatim>\<open>SearchData::getElapsed\<close> are
  declared in \<^verbatim>\<open>engine.h\<close>, which is not part of the sources. The specification (4.7) gives
  \<^verbatim>\<open>shouldStop\<close> as: \<^verbatim>\<open>limits.maxNodes > 0 AND nbNodes >= limits.maxNodes\<close>, or wall-clock
  elapsed \<^verbatim>\<open>>= allocatedTime AND allocatedTime > 0\<close>. \<open>tick\<close> advances the clock index after
  a poll.
\<close>

definition getElapsed :: "('p, 'm, 't, 's) env \<Rightarrow> ('p, 'm) searchData \<Rightarrow> int" where
  "getElapsed env sd = now env (clock sd) - startTime sd"

definition shouldStop :: "('p, 'm, 't, 's) env \<Rightarrow> ('p, 'm) searchData \<Rightarrow> bool" where
  "shouldStop env sd =
     ((maxNodes (limits sd) > 0 \<and> int (nbNodes sd) \<ge> maxNodes (limits sd))
      \<or> (getElapsed env sd \<ge> allocatedTime sd \<and> allocatedTime sd > 0))"

definition tick :: "('p, 'm) searchData \<Rightarrow> ('p, 'm) searchData" where
  "tick sd = sd\<lparr>clock := Suc (clock sd)\<rparr>"

text \<open>\<^verbatim>\<open>Engine::stop\<close> (lines 273-275). \<^verbatim>\<open>searchAborted()\<close> reads the flag.\<close>

definition stop :: "('p, 't) engine \<Rightarrow> ('p, 't) engine" where
  "stop eng = eng\<lparr>aborted := True\<rparr>"

definition searchAborted :: "('p, 't) engine \<Rightarrow> bool" where
  "searchAborted eng = aborted eng"

text \<open>\<^verbatim>\<open>updatePv\<close> (lines 239-243): clear, push the move, append the child's line.\<close>

definition updatePv :: "'m list \<Rightarrow> 'm \<Rightarrow> 'm list \<Rightarrow> 'm list" where
  "updatePv pv move childPv = [] @ [move] @ childPv"

text \<open>The draw test of lines 337 and 434, and the hint of lines 357 and 479
  (\<^verbatim>\<open>ttHit ? tte->move() : MOVE_NONE\<close>).\<close>

definition isDraw :: "('p, 'm, 't, 's) env \<Rightarrow> 'p \<Rightarrow> bool" where
  "isDraw env pos =
     (pos_isFiftyMoveDraw env pos \<or> pos_isMaterialDraw env pos \<or> pos_isRepetitionDraw env pos)"

definition ttHint :: "('p, 'm, 't, 's) env \<Rightarrow> 't \<Rightarrow> nat \<Rightarrow> 'm" where
  "ttHint env table h =
     (if fst (tt_get env table h) then tte_move env table (snd (tt_get env table h))
      else MOVE_NONE env)"

text \<open>
  The tail of both callbacks (lines 381-397 and 489-505): the abort test after the move
  is unmade, then the update of \<^verbatim>\<open>bestScore\<close>, \<^verbatim>\<open>bestMove\<close>, \<^verbatim>\<open>alpha\<close> and \<^verbatim>\<open>pv\<close>. The
  boolean is the callback's return value.
\<close>

definition updateBest ::
    "int \<Rightarrow> 'm \<Rightarrow> int \<Rightarrow> ('p, 'm, 't) loopState \<Rightarrow> bool \<times> ('p, 'm, 't) loopState" where
  "updateBest beta move score ls =
     (if searchAborted (l_eng ls) then (False, ls)
      else if score > l_bestScore ls then
        (let ls2 = ls\<lparr>l_bestScore := score\<rparr> in
          if l_bestScore ls2 > l_alpha ls2 then
            (let ls3 = ls2\<lparr>l_bestMove := move, l_alpha := l_bestScore ls2,
                           l_pv := updatePv (l_pv ls2) move (l_childPv ls2)\<rparr>
             in if l_alpha ls3 \<ge> beta then (False, ls3) else (True, ls3))
          else (True, ls2))
      else (True, ls))"

text \<open>\<^verbatim>\<open>sd.nbNodes++; (pos.*doMove)(move);\<close> and \<^verbatim>\<open>(pos.*undoMove)(move);\<close>, on the position
  held by the search data.\<close>

definition makeMove ::
    "('p, 'm, 't, 's) env \<Rightarrow> ('p, 'm) searchData \<Rightarrow> 'm \<Rightarrow> ('p, 'm) searchData" where
  "makeMove env sd move =
     (let sd1 = sd\<lparr>nbNodes := Suc (nbNodes sd)\<rparr>
      in sd1\<lparr>position := pos_doMove env (position sd1) move\<rparr>)"

definition unmakeMove ::
    "('p, 'm, 't, 's) env \<Rightarrow> ('p, 'm) searchData \<Rightarrow> 'm \<Rightarrow> ('p, 'm) searchData" where
  "unmakeMove env sd move = sd\<lparr>position := pos_undoMove env (position sd) move\<rparr>"

text \<open>
  \<^verbatim>\<open>Engine::qSearch\<close> (lines 414-514). The recursion ends at \<^verbatim>\<open>ply >= MAX_PLY\<close>: the
  termination proof measures \<open>MAX_PLY - ply\<close>.
\<close>

function qSearch ::
    "('p, 'm, 't, 's) env \<Rightarrow> side \<Rightarrow> ('p, 't) engine \<Rightarrow> ('p, 'm) searchData \<Rightarrow>
     int \<Rightarrow> int \<Rightarrow> int \<Rightarrow> int \<Rightarrow> ('p, 'm, 't) result"
  and qLoop ::
    "('p, 'm, 't, 's) env \<Rightarrow> side \<Rightarrow> int \<Rightarrow> int \<Rightarrow> int \<Rightarrow> 'm list \<Rightarrow>
     ('p, 'm, 't) loopState \<Rightarrow> ('p, 'm, 't) loopState"
  and qVisit ::
    "('p, 'm, 't, 's) env \<Rightarrow> side \<Rightarrow> int \<Rightarrow> int \<Rightarrow> int \<Rightarrow> 'm \<Rightarrow>
     ('p, 'm, 't) loopState \<Rightarrow> bool \<times> ('p, 'm, 't) loopState"
where
  "qSearch env me eng sd alpha beta depth ply =
    (let eng1 = (if shouldStop env sd then stop eng else eng);
         sd1 = tick sd
     in
      if searchAborted eng1 then
        \<lparr>r_score = - SCORE_INFINITE env, r_eng = eng1, r_sd = sd1, r_pv = [], r_acts = []\<rparr>
      else if isDraw env (position sd1) then
        \<lparr>r_score = SCORE_DRAW env, r_eng = eng1, r_sd = sd1, r_pv = [], r_acts = []\<rparr>
      else if ply \<ge> MAX_PLY env then
        \<lparr>r_score = evaluate env me (position sd1), r_eng = eng1, r_sd = sd1, r_pv = [],
          r_acts = [Evaluate]\<rparr>
      else
        (let alphaOrig = alpha;
             inCheck = pos_inCheck env (position sd1);
             eval = (if \<not> inCheck then evaluate env me (position sd1) else SCORE_NONE env);
             acts1 = (if \<not> inCheck then [Evaluate] else [])
         in
          if \<not> inCheck \<and> eval \<ge> beta then
            \<lparr>r_score = eval, r_eng = eng1, r_sd = sd1, r_pv = [], r_acts = acts1\<rparr>
          else
            (let alpha1 = (if \<not> inCheck \<and> eval > alpha then eval else alpha);
                 bestScore = (if \<not> inCheck then eval else - SCORE_MATE env + ply);
                 h = pos_hash env (position sd1);
                 ttHit = fst (tt_get env (tt eng1) h);
                 tte = snd (tt_get env (tt eng1) h);
                 ttMove = ttHint env (tt eng1) h;
                 ls = qLoop env me beta depth ply
                        (mp_enumerate env QUIESCENCE me (position sd1) ttMove)
                        \<lparr>l_eng = eng1, l_sd = sd1, l_nbMoves = 0, l_bestScore = bestScore,
                          l_bestMove = MOVE_NONE env, l_alpha = alpha1, l_pv = [],
                          l_childPv = [],
                          l_acts = acts1 @ [Probe h, Enumerate QUIESCENCE ttMove]\<rparr>
             in
              if searchAborted (l_eng ls) then
                \<lparr>r_score = l_bestScore ls, r_eng = l_eng ls, r_sd = l_sd ls, r_pv = l_pv ls,
                  r_acts = l_acts ls\<rparr>
              else
                (let ttBound = (if l_bestScore ls \<ge> beta then BOUND_LOWER
                                else if l_bestScore ls \<le> alphaOrig then BOUND_UPPER
                                else BOUND_EXACT);
                     h2 = pos_hash env (position (l_sd ls));
                     d = (if inCheck then 1 else 0)
                 in
                  \<lparr>r_score = l_bestScore ls,
                    r_eng = (l_eng ls)\<lparr>tt := tt_set env (tt (l_eng ls)) tte h2 d ply ttBound
                                                (l_bestMove ls) eval (l_bestScore ls) False\<rparr>,
                    r_sd = l_sd ls, r_pv = l_pv ls,
                    r_acts = l_acts ls @
                      [Store h2 d ply ttBound (l_bestMove ls) eval (l_bestScore ls) False]\<rparr>))))"
| "qLoop env me beta depth ply [] ls = ls"
| "qLoop env me beta depth ply (move # rest) ls =
    (let v = qVisit env me beta depth ply move ls
     in if fst v then qLoop env me beta depth ply rest (snd v) else snd v)"
| "qVisit env me beta depth ply move ls =
    (let sd2 = makeMove env (l_sd ls) move;
         r = qSearch env (flipSide me) (l_eng ls) sd2 (- beta) (- l_alpha ls) (depth - 1)
               (ply + 1)
     in updateBest beta move (- r_score r)
          (ls\<lparr>l_eng := r_eng r,
               l_sd := unmakeMove env (r_sd r) move,
               l_nbMoves := Suc (l_nbMoves ls),
               l_childPv := r_pv r,
               l_acts := l_acts ls @
                 [DoMove move,
                  CallQ (- beta) (- l_alpha ls) (depth - 1) (ply + 1) (r_acts r),
                  UndoMove move]\<rparr>))"
  apply pat_completeness
  apply (simp_all only: sum.inject sum.distinct prod.inject list.inject list.distinct simp_thms)
  done

termination
  apply (relation "inv_image (less_than <*lex*> less_than)
           (\<lambda>x. case x of
              Inl (env, me, eng, sd, alpha, beta, depth, ply) \<Rightarrow>
                (3 * nat (MAX_PLY env - ply), 0)
            | Inr (Inl (env, me, beta, depth, ply, ms, ls)) \<Rightarrow>
                (3 * nat (MAX_PLY env - (ply + 1)) + 2, length ms)
            | Inr (Inr (env, me, beta, depth, ply, move, ls)) \<Rightarrow>
                (3 * nat (MAX_PLY env - (ply + 1)) + 1, 0))")
  apply (auto)
  done


text \<open>The test of \<^verbatim>\<open>searchmoves\<close> at the root (line 361).\<close>

definition skipsMove :: "nodeType \<Rightarrow> ('p, 'm) searchData \<Rightarrow> 'm \<Rightarrow> bool" where
  "skipsMove nt sd move =
     (RootNode nt \<and> length (searchMoves (limits sd)) > 0
      \<and> move \<notin> set (searchMoves (limits sd)))"

text \<open>\<^verbatim>\<open>Engine::pvSearch\<close> (lines 310-411).\<close>

function pvSearch ::
    "('p, 'm, 't, 's) env \<Rightarrow> side \<Rightarrow> nodeType \<Rightarrow> ('p, 't) engine \<Rightarrow> ('p, 'm) searchData \<Rightarrow>
     int \<Rightarrow> int \<Rightarrow> int \<Rightarrow> int \<Rightarrow> ('p, 'm, 't) result"
  and pvLoop ::
    "('p, 'm, 't, 's) env \<Rightarrow> side \<Rightarrow> nodeType \<Rightarrow> int \<Rightarrow> int \<Rightarrow> int \<Rightarrow> 'm list \<Rightarrow>
     ('p, 'm, 't) loopState \<Rightarrow> ('p, 'm, 't) loopState"
  and pvVisit ::
    "('p, 'm, 't, 's) env \<Rightarrow> side \<Rightarrow> nodeType \<Rightarrow> int \<Rightarrow> int \<Rightarrow> int \<Rightarrow> 'm \<Rightarrow>
     ('p, 'm, 't) loopState \<Rightarrow> bool \<times> ('p, 'm, 't) loopState"
where
  "pvSearch env me nt eng sd alpha beta depth ply =
    (if depth \<le> 0 then
       (let r = qSearch env me eng sd alpha beta depth ply
        in r\<lparr>r_acts := [CallQ alpha beta depth ply (r_acts r)]\<rparr>)
     else
      (let eng1 = (if \<not> RootNode nt \<and> shouldStop env sd then stop eng else eng);
           sd1 = (if \<not> RootNode nt then tick sd else sd)
       in
        if \<not> RootNode nt \<and> searchAborted eng1 then
          \<lparr>r_score = - SCORE_INFINITE env, r_eng = eng1, r_sd = sd1, r_pv = [], r_acts = []\<rparr>
        else
          (let alphaOrig = alpha;
               inCheck = pos_inCheck env (position sd1)
           in
            if isDraw env (position sd1) then
              \<lparr>r_score = SCORE_DRAW env, r_eng = eng1, r_sd = sd1, r_pv = [], r_acts = []\<rparr>
            else if ply \<ge> MAX_PLY env then
              \<lparr>r_score = evaluate env me (position sd1), r_eng = eng1, r_sd = sd1, r_pv = [],
                r_acts = [Evaluate]\<rparr>
            else
              (let h = pos_hash env (position sd1);
                   ttHit = fst (tt_get env (tt eng1) h);
                   tte = snd (tt_get env (tt eng1) h)
               in
                if \<not> PvNode nt \<and> ttHit \<and> tte_depth env (tt eng1) tte \<ge> depth
                   \<and> tte_score env (tt eng1) tte ply \<noteq> SCORE_NONE env
                   \<and> tte_boundMatch env (tt eng1) tte alpha beta ply then
                  \<lparr>r_score = tte_score env (tt eng1) tte ply, r_eng = eng1, r_sd = sd1,
                    r_pv = [], r_acts = [Probe h]\<rparr>
                else
                  (let ttMove = ttHint env (tt eng1) h;
                       ls = pvLoop env me nt beta depth ply
                              (mp_enumerate env MAIN me (position sd1) ttMove)
                              \<lparr>l_eng = eng1, l_sd = sd1, l_nbMoves = 0,
                                l_bestScore = - SCORE_INFINITE env, l_bestMove = MOVE_NONE env,
                                l_alpha = alpha, l_pv = [], l_childPv = [],
                                l_acts = [Probe h, Enumerate MAIN ttMove]\<rparr>
                   in
                    if searchAborted (l_eng ls) then
                      \<lparr>r_score = l_bestScore ls, r_eng = l_eng ls, r_sd = l_sd ls,
                        r_pv = l_pv ls, r_acts = l_acts ls\<rparr>
                    else if l_nbMoves ls = 0 then
                      \<lparr>r_score = (if inCheck then - SCORE_MATE env + ply else SCORE_DRAW env),
                        r_eng = l_eng ls, r_sd = l_sd ls, r_pv = l_pv ls, r_acts = l_acts ls\<rparr>
                    else
                      (let ttBound = (if l_bestScore ls \<ge> beta then BOUND_LOWER
                                      else if \<not> PvNode nt \<or> l_bestScore ls \<le> alphaOrig
                                        then BOUND_UPPER
                                      else BOUND_EXACT);
                           h2 = pos_hash env (position (l_sd ls))
                       in
                        \<lparr>r_score = l_bestScore ls,
                          r_eng = (l_eng ls)\<lparr>tt := tt_set env (tt (l_eng ls)) tte h2 depth ply
                                      ttBound (l_bestMove ls) (SCORE_NONE env) (l_bestScore ls)
                                      False\<rparr>,
                          r_sd = l_sd ls, r_pv = l_pv ls,
                          r_acts = l_acts ls @
                            [Store h2 depth ply ttBound (l_bestMove ls) (SCORE_NONE env)
                               (l_bestScore ls) False]\<rparr>))))))"
| "pvLoop env me nt beta depth ply [] ls = ls"
| "pvLoop env me nt beta depth ply (move # rest) ls =
    (let v = pvVisit env me nt beta depth ply move ls
     in if fst v then pvLoop env me nt beta depth ply rest (snd v) else snd v)"
| "pvVisit env me nt beta depth ply move ls =
    (if skipsMove nt (l_sd ls) move then (True, ls)
     else
      (let nbMoves = Suc (l_nbMoves ls);
           sd2 = makeMove env (l_sd ls) move;
           alpha = l_alpha ls;
           r1 = (if \<not> PvNode nt \<or> nbMoves > 1 then
                   (let r = pvSearch env (flipSide me) NonPV (l_eng ls) sd2
                              (- alpha - 1) (- alpha) (depth - 1) (ply + 1)
                    in r\<lparr>r_score := - r_score r,
                         r_acts := [DoMove move,
                           CallPv NonPV (- alpha - 1) (- alpha) (depth - 1) (ply + 1) (r_acts r)]\<rparr>)
                 else
                   \<lparr>r_score = uninitialised env, r_eng = l_eng ls, r_sd = sd2,
                     r_pv = l_childPv ls, r_acts = [DoMove move]\<rparr>);
           r2 = (if PvNode nt \<and> (nbMoves = 1 \<or> (r_score r1 > alpha
                                                   \<and> (RootNode nt \<or> r_score r1 < beta))) then
                   (let r = pvSearch env (flipSide me) PV (r_eng r1) (r_sd r1)
                              (- beta) (- alpha) (depth - 1) (ply + 1)
                    in r\<lparr>r_score := - r_score r,
                         r_acts := r_acts r1 @
                           [CallPv PV (- beta) (- alpha) (depth - 1) (ply + 1) (r_acts r)]\<rparr>)
                 else r1)
       in updateBest beta move (r_score r2)
            (ls\<lparr>l_eng := r_eng r2,
                 l_sd := unmakeMove env (r_sd r2) move,
                 l_nbMoves := nbMoves,
                 l_childPv := r_pv r2,
                 l_acts := l_acts ls @ r_acts r2 @ [UndoMove move]\<rparr>)))"
  apply pat_completeness
  apply (simp_all only: sum.inject sum.distinct prod.inject list.inject list.distinct simp_thms)
  done

termination
  apply (relation "inv_image (less_than <*lex*> less_than)
           (\<lambda>x. case x of
              Inl (env, me, nt, eng, sd, alpha, beta, depth, ply) \<Rightarrow>
                (3 * nat (MAX_PLY env - ply), 0)
            | Inr (Inl (env, me, nt, beta, depth, ply, ms, ls)) \<Rightarrow>
                (3 * nat (MAX_PLY env - (ply + 1)) + 2, length ms)
            | Inr (Inr (env, me, nt, beta, depth, ply, move, ls)) \<Rightarrow>
                (3 * nat (MAX_PLY env - (ply + 1)) + 1, 0))")
  apply (auto)
  done


declare qSearch.simps [simp del] qLoop.simps [simp del] qVisit.simps [simp del]
  pvSearch.simps [simp del] pvLoop.simps [simp del] pvVisit.simps [simp del]

section \<open>Iterative deepening and the entry point\<close>

text \<open>
  \<^verbatim>\<open>SearchEvent\<close> and the two sinks. An emitted event is recorded with the value of
  \<open>searching\<close> at the moment the sink is called.
\<close>

record 'm searchEvent =
  ev_depth :: int
  ev_pv :: "'m list"
  ev_score :: int
  ev_nbNodes :: nat
  ev_elapsed :: int
  ev_hashfull :: int

datatype 'm emitted = OnSearchProgress "'m searchEvent" | OnSearchFinish "'m searchEvent"

record ('p, 'm, 't) idState =
  i_eng :: "('p, 't) engine"
  i_sd :: "('p, 'm) searchData"
  i_depth :: int
  i_bestPv :: "'m list"
  i_bestScore :: int
  i_completedDepth :: int
  i_out :: "('m emitted \<times> bool) list"

text \<open>\<^verbatim>\<open>SearchData::initAllocatedTime\<close> and the constructor (lines 245-257); the division
  of \<^verbatim>\<open>int64_t\<close> truncates towards zero (\<open>sdiv\<close>). The constructor reads the clock first.\<close>

definition initAllocatedTime ::
    "('p, 'm, 't, 's) env \<Rightarrow> ('p, 'm) searchData \<Rightarrow> ('p, 'm) searchData" where
  "initAllocatedTime env sd =
     (let moves = (if movesToGo (limits sd) > 0 then movesToGo (limits sd) else 40);
          stm = pos_getSideToMove env (position sd)
      in sd\<lparr>allocatedTime := timeLeft (limits sd) stm sdiv moves + increment (limits sd) stm\<rparr>)"

definition SearchData ::
    "('p, 'm, 't, 's) env \<Rightarrow> 'p \<Rightarrow> 'm searchLimits \<Rightarrow> ('p, 'm) searchData" where
  "SearchData env pos lim =
     initAllocatedTime env
       \<lparr>position = pos, limits = lim, nbNodes = 0, startTime = now env 0,
        allocatedTime = uninitialised env, clock = 1\<rparr>"

text \<open>
  \<^verbatim>\<open>Engine::search\<close> (lines 260-271). The detached thread is the second component: the
  \<^verbatim>\<open>SearchData\<close> the worker is started with, or \<open>None\<close> when no worker is started.
\<close>

definition search ::
    "('p, 'm, 't, 's) env \<Rightarrow> ('p, 't) engine \<Rightarrow> 'm searchLimits \<Rightarrow>
     ('p, 't) engine \<times> ('p, 'm) searchData option" where
  "search env eng lim =
     (if searching eng then (eng, None)
      else
       (let data = SearchData env (rootPosition eng) lim;
            eng1 = eng\<lparr>aborted := False\<rparr>;
            eng2 = eng1\<lparr>searching := True\<rparr>;
            eng3 = eng2\<lparr>tt := tt_clear env (tt eng2)\<rparr>
        in (eng3, Some data)))"

definition SearchEvent ::
    "('p, 'm, 't, 's) env \<Rightarrow> int \<Rightarrow> 'm list \<Rightarrow> int \<Rightarrow> ('p, 't) engine \<Rightarrow> ('p, 'm) searchData \<Rightarrow>
     'm searchEvent" where
  "SearchEvent env depth pv score eng sd =
     \<lparr>ev_depth = depth, ev_pv = pv, ev_score = score, ev_nbNodes = nbNodes sd,
      ev_elapsed = getElapsed env sd, ev_hashfull = tt_usage env (tt eng)\<rparr>"

text \<open>\<^verbatim>\<open>Engine::idSearch\<close> (lines 278-307): the \<^verbatim>\<open>for\<close> loop, then the exit.\<close>

function idLoop ::
    "('p, 'm, 't, 's) env \<Rightarrow> side \<Rightarrow> ('p, 'm, 't) idState \<Rightarrow> ('p, 'm, 't) idState" where
  "idLoop env me st =
     (if i_depth st < MAX_PLY env then
        (let alpha = - SCORE_INFINITE env;
             beta = SCORE_INFINITE env;
             r = pvSearch env me Root (i_eng st) (i_sd st) alpha beta (i_depth st) 0;
             score = r_score r;
             st1 = st\<lparr>i_eng := r_eng r, i_sd := r_sd r\<rparr>
         in
          if i_depth st1 > 1 \<and> searchAborted (i_eng st1) then st1
          else
           (let st2 = st1\<lparr>i_bestPv := r_pv r, i_bestScore := score,
                          i_completedDepth := i_depth st1\<rparr>;
                st3 = st2\<lparr>i_out := i_out st2 @
                         [(OnSearchProgress
                             (SearchEvent env (i_depth st2) (r_pv r) (i_bestScore st2)
                                (i_eng st2) (i_sd st2)),
                           searching (i_eng st2))]\<rparr>
            in
             if maxDepth (limits (i_sd st3)) > 0 \<and> i_depth st3 \<ge> maxDepth (limits (i_sd st3))
             then st3
             else idLoop env me (st3\<lparr>i_depth := i_depth st3 + 1\<rparr>)))
      else st)"
  by pat_completeness (simp_all only: prod.inject simp_thms)

termination
  by (relation "measure (\<lambda>(env, me, st). nat (MAX_PLY env - i_depth st))") auto

declare idLoop.simps [simp del]

definition idInit ::
    "('p, 'm, 't, 's) env \<Rightarrow> ('p, 't) engine \<Rightarrow> ('p, 'm) searchData \<Rightarrow> ('p, 'm, 't) idState" where
  "idInit env eng sd =
     \<lparr>i_eng = eng, i_sd = sd, i_depth = 1, i_bestPv = [], i_bestScore = uninitialised env,
      i_completedDepth = 0, i_out = []\<rparr>"

definition idSearch ::
    "('p, 'm, 't, 's) env \<Rightarrow> side \<Rightarrow> ('p, 't) engine \<Rightarrow> ('p, 'm) searchData \<Rightarrow>
     ('p, 't) engine \<times> ('m emitted \<times> bool) list" where
  "idSearch env me eng sd =
     (let st = idLoop env me (idInit env eng sd);
          event = SearchEvent env (i_depth st) (i_bestPv st) (i_bestScore st) (i_eng st) (i_sd st);
          out1 = (if i_depth st \<noteq> i_completedDepth st
                  then i_out st @ [(OnSearchProgress event, searching (i_eng st))]
                  else i_out st);
          out2 = out1 @ [(OnSearchFinish event, searching (i_eng st))]
      in ((i_eng st)\<lparr>searching := False\<rparr>, out2))"


section \<open>Predicates used in the statements\<close>

text \<open>
  A call is aborted at entry when it takes the exit of lines 322-329 (\<^verbatim>\<open>pvSearch\<close>, skipped
  at the root) or 419-426 (\<^verbatim>\<open>qSearch\<close>, also reached from \<^verbatim>\<open>pvSearch\<close> with
  \<^verbatim>\<open>depth <= 0\<close>). \<open>reachesProbe\<close> says that \<^verbatim>\<open>pvSearch\<close> arrives at line 348,
  \<open>qReachesStandPat\<close> that \<^verbatim>\<open>qSearch\<close> arrives at line 453, and \<open>ttCutoff\<close> is the condition
  of line 351. \<open>idRoot\<close>, \<open>idAdopt\<close> name the root search of one iteration of \<^verbatim>\<open>idSearch\<close>
  and the state after lines 292-296.
\<close>

definition qAbortsAtEntry ::
    "('p, 'm, 't, 's) env \<Rightarrow> ('p, 't) engine \<Rightarrow> ('p, 'm) searchData \<Rightarrow> bool" where
  "qAbortsAtEntry env eng sd = (shouldStop env sd \<or> aborted eng)"

definition abortsAtEntry ::
    "('p, 'm, 't, 's) env \<Rightarrow> nodeType \<Rightarrow> ('p, 't) engine \<Rightarrow> ('p, 'm) searchData \<Rightarrow> int \<Rightarrow> bool" where
  "abortsAtEntry env nt eng sd depth =
     ((depth \<le> 0 \<or> \<not> RootNode nt) \<and> qAbortsAtEntry env eng sd)"


definition reachesProbe ::
    "('p, 'm, 't, 's) env \<Rightarrow> nodeType \<Rightarrow> ('p, 't) engine \<Rightarrow> ('p, 'm) searchData \<Rightarrow> int \<Rightarrow> int \<Rightarrow>
     bool" where
  "reachesProbe env nt eng sd depth ply =
     (0 < depth \<and> \<not> abortsAtEntry env nt eng sd depth \<and> \<not> isDraw env (position sd)
      \<and> ply < MAX_PLY env)"

definition ttCutoff ::
    "('p, 'm, 't, 's) env \<Rightarrow> nodeType \<Rightarrow> 't \<Rightarrow> nat \<Rightarrow> int \<Rightarrow> int \<Rightarrow> int \<Rightarrow> int \<Rightarrow> bool" where
  "ttCutoff env nt table h alpha beta depth ply =
     (\<not> PvNode nt \<and> fst (tt_get env table h)
      \<and> tte_depth env table (snd (tt_get env table h)) \<ge> depth
      \<and> tte_score env table (snd (tt_get env table h)) ply \<noteq> SCORE_NONE env
      \<and> tte_boundMatch env table (snd (tt_get env table h)) alpha beta ply)"

definition qReachesStandPat ::
    "('p, 'm, 't, 's) env \<Rightarrow> ('p, 't) engine \<Rightarrow> ('p, 'm) searchData \<Rightarrow> int \<Rightarrow> bool" where
  "qReachesStandPat env eng sd ply =
     (\<not> qAbortsAtEntry env eng sd \<and> \<not> isDraw env (position sd) \<and> ply < MAX_PLY env)"


definition idRoot ::
    "('p, 'm, 't, 's) env \<Rightarrow> side \<Rightarrow> ('p, 'm, 't) idState \<Rightarrow> ('p, 'm, 't) result" where
  "idRoot env me st =
     pvSearch env me Root (i_eng st) (i_sd st) (- SCORE_INFINITE env) (SCORE_INFINITE env)
       (i_depth st) 0"

definition idAdopt ::
    "('p, 'm, 't, 's) env \<Rightarrow> ('p, 'm, 't) idState \<Rightarrow> ('p, 'm, 't) result \<Rightarrow> ('p, 'm, 't) idState" where
  "idAdopt env st r =
     st\<lparr>i_eng := r_eng r, i_sd := r_sd r, i_bestPv := r_pv r, i_bestScore := r_score r,
        i_completedDepth := i_depth st,
        i_out := i_out st @
          [(OnSearchProgress (SearchEvent env (i_depth st) (r_pv r) (r_score r) (r_eng r) (r_sd r)),
            searching (r_eng r))]\<rparr>"

definition lastProgressMatches :: "('p, 'm, 't) idState \<Rightarrow> bool" where
  "lastProgressMatches st =
     (i_out st = [] \<or>
      (\<exists>e b. last (i_out st) = (OnSearchProgress e, b) \<and> ev_pv e = i_bestPv st
             \<and> ev_score e = i_bestScore st \<and> ev_depth e = i_completedDepth st))"


text \<open>
  The move loop of \<^verbatim>\<open>pvSearch\<close> seen from outside. \<open>pvStart\<close> is the state in which the loop
  starts (lines 331-357). \<open>pvStates\<close> lists the states in which the callback of lines
  359-398 is called, one for each move the picker yields until the callback returns
  \<^verbatim>\<open>false\<close>. \<open>scoutSearch\<close> and \<open>fullSearch\<close> are the calls of lines 372 and 376 made from such
  a state, the second on the engine and the search data that the first left if it ran.
\<close>

primrec pvStates ::
    "('p, 'm, 't, 's) env \<Rightarrow> side \<Rightarrow> nodeType \<Rightarrow> int \<Rightarrow> int \<Rightarrow> int \<Rightarrow> 'm list \<Rightarrow>
     ('p, 'm, 't) loopState \<Rightarrow> ('p, 'm, 't) loopState list" where
  "pvStates env me nt beta depth ply [] ls = []"
| "pvStates env me nt beta depth ply (move # rest) ls =
     ls # (let v = pvVisit env me nt beta depth ply move ls
           in if fst v then pvStates env me nt beta depth ply rest (snd v) else [])"

definition pvStart ::
    "('p, 'm, 't, 's) env \<Rightarrow> nodeType \<Rightarrow> ('p, 't) engine \<Rightarrow> ('p, 'm) searchData \<Rightarrow> int \<Rightarrow>
     ('p, 'm, 't) loopState" where
  "pvStart env nt eng sd alpha =
     \<lparr>l_eng = eng, l_sd = (if \<not> RootNode nt then tick sd else sd), l_nbMoves = 0,
      l_bestScore = - SCORE_INFINITE env, l_bestMove = MOVE_NONE env, l_alpha = alpha,
      l_pv = [], l_childPv = [],
      l_acts = [Probe (pos_hash env (position sd)),
                Enumerate MAIN (ttHint env (tt eng) (pos_hash env (position sd)))]\<rparr>"

definition scoutSearch ::
    "('p, 'm, 't, 's) env \<Rightarrow> side \<Rightarrow> int \<Rightarrow> int \<Rightarrow> 'm \<Rightarrow> ('p, 'm, 't) loopState \<Rightarrow>
     ('p, 'm, 't) result" where
  "scoutSearch env me depth ply move ls =
     pvSearch env (flipSide me) NonPV (l_eng ls) (makeMove env (l_sd ls) move)
       (- l_alpha ls - 1) (- l_alpha ls) (depth - 1) (ply + 1)"

definition fullSearch ::
    "('p, 'm, 't, 's) env \<Rightarrow> side \<Rightarrow> nodeType \<Rightarrow> int \<Rightarrow> int \<Rightarrow> int \<Rightarrow> 'm \<Rightarrow>
     ('p, 'm, 't) loopState \<Rightarrow> ('p, 'm, 't) result" where
  "fullSearch env me nt beta depth ply move ls =
     (let scouted = (\<not> PvNode nt \<or> Suc (l_nbMoves ls) > 1);
          r = scoutSearch env me depth ply move ls
      in pvSearch env (flipSide me) PV
           (if scouted then r_eng r else l_eng ls)
           (if scouted then r_sd r else makeMove env (l_sd ls) move)
           (- beta) (- l_alpha ls) (depth - 1) (ply + 1))"

section \<open>Concrete environments\<close>

text \<open>
  Small environments on which the definitions are evaluated. A position is the list of
  moves played from the root, a move is a number. \<open>legal\<close> gives the legal moves, \<open>chk\<close> and
  \<open>drw\<close> the positions in check and the positions drawn by the fifty-move rule. The
  quiescence picker yields the legal moves in check and nothing otherwise. The table never
  hits and counts its stores, except in \<open>ttHitEnv\<close>, where every probe hits an entry of
  depth 5 and score 42 that matches every window. A clock reading is its index, in
  milliseconds.
\<close>

definition demoEnv ::
    "(nat list \<Rightarrow> nat list) \<Rightarrow> (nat list \<Rightarrow> bool) \<Rightarrow> (nat list \<Rightarrow> bool) \<Rightarrow>
     (nat list, nat, nat, unit) env" where
  "demoEnv legal chk drw =
    \<lparr>MAX_PLY = 128, SCORE_INFINITE = 32001, SCORE_MATE = 32000, SCORE_DRAW = 0,
     SCORE_NONE = 32002, MOVE_NONE = 0, uninitialised = 777,
     pos_getSideToMove = (\<lambda>p. if even (length p) then WHITE else BLACK),
     pos_inCheck = chk, pos_isFiftyMoveDraw = drw, pos_isMaterialDraw = (\<lambda>p. False),
     pos_isRepetitionDraw = (\<lambda>p. False), pos_hash = sum_list,
     pos_doMove = (\<lambda>p m. m # p), pos_undoMove = (\<lambda>p m. tl p),
     evaluate = (\<lambda>s p. if s = WHITE then 10 * int (sum_list p) else - 10 * int (sum_list p)),
     mp_enumerate = (\<lambda>mode s p hint. if mode = MAIN \<or> chk p then legal p else []),
     tt_get = (\<lambda>t h. (False, ())), tte_depth = (\<lambda>t sl. 0), tte_score = (\<lambda>t sl ply. 32002),
     tte_boundMatch = (\<lambda>t sl a b ply. False), tte_move = (\<lambda>t sl. 0),
     tt_set = (\<lambda>t sl h d ply bd m e sc pvf. Suc t), tt_clear = (\<lambda>t. 0), tt_usage = int,
     now = int\<rparr>"

definition twoMoves :: "nat list \<Rightarrow> nat list" where
  "twoMoves p = (if p = [] then [1, 2] else [])"

definition twoMovesEnv :: "(nat list, nat, nat, unit) env" where
  "twoMovesEnv = demoEnv twoMoves (\<lambda>p. False) (\<lambda>p. False)"

definition stalemateEnv :: "(nat list, nat, nat, unit) env" where
  "stalemateEnv = demoEnv (\<lambda>p. []) (\<lambda>p. False) (\<lambda>p. False)"

definition drawnCheckEnv :: "(nat list, nat, nat, unit) env" where
  "drawnCheckEnv = demoEnv twoMoves (\<lambda>p. p = []) (\<lambda>p. p = [])"

definition checkEnv :: "(nat list, nat, nat, unit) env" where
  "checkEnv = demoEnv twoMoves (\<lambda>p. p = []) (\<lambda>p. False)"

definition ttHitEnv :: "(nat list, nat, nat, unit) env" where
  "ttHitEnv = twoMovesEnv\<lparr>tt_get := (\<lambda>t h. (True, ())), tte_depth := (\<lambda>t sl. 5),
     tte_score := (\<lambda>t sl ply. 42), tte_boundMatch := (\<lambda>t sl a b ply. True),
     tte_move := (\<lambda>t sl. 2)\<rparr>"

definition demoLimits :: "int \<Rightarrow> int \<Rightarrow> int \<Rightarrow> nat list \<Rightarrow> nat searchLimits" where
  "demoLimits ms md mn sm =
     \<lparr>timeLeft = (\<lambda>s. ms), increment = (\<lambda>s. 0), movesToGo = 0, maxDepth = md,
      maxNodes = mn, searchMoves = sm\<rparr>"

definition demoEngine :: "bool \<Rightarrow> bool \<Rightarrow> (nat list, nat) engine" where
  "demoEngine ab se = \<lparr>rootPosition = [], tt = 0, aborted = ab, searching = se\<rparr>"

definition demoData ::
    "(nat list, nat, nat, unit) env \<Rightarrow> int \<Rightarrow> int \<Rightarrow> int \<Rightarrow> nat list \<Rightarrow>
     (nat list, nat) searchData" where
  "demoData env ms md mn sm = SearchData env [] (demoLimits ms md mn sm)"

section \<open>Auxiliary facts\<close>

lemma qSearch_draw:
  assumes "isDraw env (position sd)" and "\<not> qAbortsAtEntry env eng sd"
  shows "r_score (qSearch env me eng sd alpha beta depth ply) = SCORE_DRAW env"
  using assms
  by (subst qSearch.simps) (simp add: Let_def qAbortsAtEntry_def searchAborted_def tick_def)

lemma tick_simps [simp]:
  "position (tick sd) = position sd"
  "limits (tick sd) = limits sd"
  "nbNodes (tick sd) = nbNodes sd"
  by (simp_all add: tick_def)

lemma stop_simps [simp]:
  "tt (stop eng) = tt eng"
  "searching (stop eng) = searching eng"
  "aborted (stop eng) = True"
  by (simp_all add: stop_def)

lemma skipsMove_tick [simp]: "skipsMove nt (tick sd) m = skipsMove nt sd m"
  by (simp add: skipsMove_def)

lemma updateBest_frame [simp]:
  "l_eng (snd (updateBest beta move score ls)) = l_eng ls"
  "l_sd (snd (updateBest beta move score ls)) = l_sd ls"
  "l_nbMoves (snd (updateBest beta move score ls)) = l_nbMoves ls"
  "l_acts (snd (updateBest beta move score ls)) = l_acts ls"
  "l_childPv (snd (updateBest beta move score ls)) = l_childPv ls"
  by (simp_all add: updateBest_def Let_def)

lemma updateBest_bestScore: "l_bestScore ls \<le> l_bestScore (snd (updateBest beta move score ls))"
  by (simp add: updateBest_def Let_def)

lemma qLoop_searching_step:
  assumes "\<And>me' eng' sd' a b d.
             searching (r_eng (qSearch env me' eng' sd' a b d (ply + 1))) = searching eng'"
  shows "searching (l_eng (qLoop env me beta depth ply ms ls)) = searching (l_eng ls)"
proof (induction ms arbitrary: ls)
  case Nil
  show ?case by (simp add: qLoop.simps)
next
  case (Cons m ms)
  show ?case
    by (subst qLoop.simps) (simp add: Let_def Cons assms qVisit.simps)
qed

lemma qSearch_searching_step:
  assumes "\<And>ms ls. searching (l_eng (qLoop env me beta depth ply ms ls)) = searching (l_eng ls)"
  shows "searching (r_eng (qSearch env me eng sd alpha beta depth ply)) = searching eng"
  by (subst qSearch.simps) (simp add: Let_def assms)

lemma qSearch_searching_ceiling:
  assumes "MAX_PLY env \<le> ply"
  shows "searching (r_eng (qSearch env me eng sd alpha beta depth ply)) = searching eng"
  using assms by (subst qSearch.simps) (simp add: Let_def)

lemma qSearch_searching_level:
  "nat (MAX_PLY env - ply) = n \<Longrightarrow>
   searching (r_eng (qSearch env me eng sd alpha beta depth ply)) = searching eng"
proof (induction n arbitrary: me eng sd alpha beta depth ply)
  case 0
  then have "MAX_PLY env \<le> ply" by simp
  then show ?case by (rule qSearch_searching_ceiling)
next
  case (Suc n)
  then have lvl: "nat (MAX_PLY env - (ply + 1)) = n" by simp
  show ?case
    by (rule qSearch_searching_step, rule qLoop_searching_step) (rule Suc.IH [OF lvl])
qed

lemma qSearch_searching [simp]:
  "searching (r_eng (qSearch env me eng sd alpha beta depth ply)) = searching eng"
  by (rule qSearch_searching_level [OF refl])

lemma pvLoop_searching_step:
  assumes "\<And>me' nt' eng' sd' a b d.
             searching (r_eng (pvSearch env me' nt' eng' sd' a b d (ply + 1))) = searching eng'"
  shows "searching (l_eng (pvLoop env me nt beta depth ply ms ls)) = searching (l_eng ls)"
proof (induction ms arbitrary: ls)
  case Nil
  show ?case by (simp add: pvLoop.simps)
next
  case (Cons m ms)
  show ?case
    by (subst pvLoop.simps) (simp add: Let_def Cons assms pvVisit.simps)
qed

lemma pvSearch_searching_step:
  assumes "\<And>ms ls. searching (l_eng (pvLoop env me nt beta depth ply ms ls)) = searching (l_eng ls)"
  shows "searching (r_eng (pvSearch env me nt eng sd alpha beta depth ply)) = searching eng"
  by (subst pvSearch.simps) (simp add: Let_def assms)

lemma pvSearch_searching_ceiling:
  assumes "MAX_PLY env \<le> ply"
  shows "searching (r_eng (pvSearch env me nt eng sd alpha beta depth ply)) = searching eng"
  using assms by (subst pvSearch.simps) (simp add: Let_def)

lemma pvSearch_searching_level:
  "nat (MAX_PLY env - ply) = n \<Longrightarrow>
   searching (r_eng (pvSearch env me nt eng sd alpha beta depth ply)) = searching eng"
proof (induction n arbitrary: me nt eng sd alpha beta depth ply)
  case 0
  then have "MAX_PLY env \<le> ply" by simp
  then show ?case by (rule pvSearch_searching_ceiling)
next
  case (Suc n)
  then have lvl: "nat (MAX_PLY env - (ply + 1)) = n" by simp
  show ?case
    by (rule pvSearch_searching_step, rule pvLoop_searching_step) (rule Suc.IH [OF lvl])
qed

lemma pvSearch_searching [simp]:
  "searching (r_eng (pvSearch env me nt eng sd alpha beta depth ply)) = searching eng"
  by (rule pvSearch_searching_level [OF refl])

lemma pvVisit_skipped: "skipsMove nt (l_sd ls) m \<Longrightarrow> pvVisit env me nt beta depth ply m ls = (True, ls)"
  by (simp add: pvVisit.simps)

lemma pvLoop_all_skipped:
  "\<forall>m\<in>set ms. skipsMove nt (l_sd ls) m \<Longrightarrow> pvLoop env me nt beta depth ply ms ls = ls"
  by (induction ms) (simp_all add: pvLoop.simps pvVisit_skipped)

lemma qVisit_acts:
  "l_acts (snd (qVisit env me beta depth ply m ls)) =
     l_acts ls @
     [DoMove m,
      CallQ (- beta) (- l_alpha ls) (depth - 1) (ply + 1)
        (r_acts (qSearch env (flipSide me) (l_eng ls) (makeMove env (l_sd ls) m)
           (- beta) (- l_alpha ls) (depth - 1) (ply + 1))),
      UndoMove m]"
  by (simp add: qVisit.simps Let_def)

lemma qLoop_acts_prefix:
  "l_acts ls = pre @ mid \<Longrightarrow> \<exists>more. l_acts (qLoop env me beta depth ply ms ls) = pre @ more"
proof (induction ms arbitrary: ls mid)
  case Nil
  then show ?case by (simp add: qLoop.simps)
next
  case (Cons m ms)
  have "l_acts (snd (qVisit env me beta depth ply m ls)) = pre @ (mid @ drop (length (l_acts ls)) (l_acts (snd (qVisit env me beta depth ply m ls))))"
    using Cons.prems by (simp add: qVisit_acts)
  from Cons.IH [OF this] Cons.prems show ?case
    by (subst qLoop.simps) (auto simp add: Let_def qVisit_acts)
qed

lemma pvVisit_acts_prefix:
  "\<exists>more. l_acts (snd (pvVisit env me nt beta depth ply m ls)) = l_acts ls @ more"
  by (simp add: pvVisit.simps Let_def)

lemma pvLoop_acts_prefix:
  "l_acts ls = pre @ mid \<Longrightarrow> \<exists>more. l_acts (pvLoop env me nt beta depth ply ms ls) = pre @ more"
proof (induction ms arbitrary: ls mid)
  case Nil
  then show ?case by (simp add: pvLoop.simps)
next
  case (Cons m ms)
  obtain more where "l_acts (snd (pvVisit env me nt beta depth ply m ls)) = l_acts ls @ more"
    using pvVisit_acts_prefix [of env me nt beta depth ply m ls] by auto
  with Cons.prems
  have "l_acts (snd (pvVisit env me nt beta depth ply m ls)) = pre @ (mid @ more)" by simp
  from Cons.IH [OF this] this show ?case
    by (subst pvLoop.simps) (auto simp add: Let_def)
qed

lemma disjoint_skips:
  assumes "searchMoves (limits sd) \<noteq> []"
    and "set ms \<inter> set (searchMoves (limits sd)) = {}"
  shows "\<forall>m\<in>set ms. skipsMove Root sd m"
  using assms by (auto simp add: skipsMove_def RootNode_def)

lemma updateBest_bestScore_ge:
  "x \<le> l_bestScore ls \<Longrightarrow> x \<le> l_bestScore (snd (updateBest beta m s ls))"
  by (simp add: updateBest_def Let_def)

lemma qVisit_bestScore_ge:
  "x \<le> l_bestScore ls \<Longrightarrow> x \<le> l_bestScore (snd (qVisit env me beta depth ply m ls))"
  by (simp add: qVisit.simps Let_def updateBest_bestScore_ge)

lemma qLoop_bestScore_ge:
  "x \<le> l_bestScore ls \<Longrightarrow> x \<le> l_bestScore (qLoop env me beta depth ply ms ls)"
proof (induction ms arbitrary: ls)
  case Nil
  then show ?case by (simp add: qLoop.simps)
next
  case (Cons m ms)
  from Cons.prems have "x \<le> l_bestScore (snd (qVisit env me beta depth ply m ls))"
    by (rule qVisit_bestScore_ge)
  with Cons.IH show ?case
    by (subst qLoop.simps) (simp add: Let_def)
qed

lemma qLoop_count_Evaluate:
  "count_list (l_acts (qLoop env me beta depth ply ms ls)) Evaluate
     = count_list (l_acts ls) Evaluate"
proof (induction ms arbitrary: ls)
  case Nil
  show ?case by (simp add: qLoop.simps)
next
  case (Cons m ms)
  have "count_list (l_acts (snd (qVisit env me beta depth ply m ls))) Evaluate
          = count_list (l_acts ls) Evaluate"
    by (simp add: qVisit_acts)
  with Cons.IH show ?case
    by (subst qLoop.simps) (simp add: Let_def)
qed

lemma qLoop_first_move:
  "\<exists>sub more. l_acts (qLoop env me beta depth ply (m # rest) ls) =
     l_acts ls @ [DoMove m, CallQ (- beta) (- l_alpha ls) (depth - 1) (ply + 1) sub, UndoMove m]
     @ more"
proof -
  let ?v = "qVisit env me beta depth ply m ls"
  let ?sub = "r_acts (qSearch env (flipSide me) (l_eng ls) (makeMove env (l_sd ls) m)
           (- beta) (- l_alpha ls) (depth - 1) (ply + 1))"
  let ?pre = "l_acts ls @ [DoMove m, CallQ (- beta) (- l_alpha ls) (depth - 1) (ply + 1) ?sub,
     UndoMove m]"
  have v: "l_acts (snd ?v) = ?pre @ []" by (simp add: qVisit_acts)
  from qLoop_acts_prefix [OF v]
  obtain more where "l_acts (qLoop env me beta depth ply rest (snd ?v)) = ?pre @ more"
    by blast
  with v have "\<exists>more. l_acts (qLoop env me beta depth ply (m # rest) ls) = ?pre @ more"
    by (subst qLoop.simps) (auto simp add: Let_def)
  then obtain more where "l_acts (qLoop env me beta depth ply (m # rest) ls) = ?pre @ more"
    by blast
  then have "l_acts (qLoop env me beta depth ply (m # rest) ls) =
     l_acts ls @ [DoMove m, CallQ (- beta) (- l_alpha ls) (depth - 1) (ply + 1) ?sub, UndoMove m]
     @ more" by simp
  then show ?thesis by blast
qed

lemma idLoop_step:
  "idLoop env me st =
     (if i_depth st < MAX_PLY env then
        (let r = idRoot env me st in
          if 1 < i_depth st \<and> aborted (r_eng r) then st\<lparr>i_eng := r_eng r, i_sd := r_sd r\<rparr>
          else if 0 < maxDepth (limits (r_sd r)) \<and> maxDepth (limits (r_sd r)) \<le> i_depth st
            then idAdopt env st r
          else idLoop env me ((idAdopt env st r)\<lparr>i_depth := i_depth st + 1\<rparr>))
      else st)"
  by (subst idLoop.simps) (simp add: Let_def searchAborted_def idRoot_def idAdopt_def)

lemma idLoop_rule [consumes 0, case_names stop abort last continue]:
  assumes stop: "\<And>st. MAX_PLY env \<le> i_depth st \<Longrightarrow> P st st"
    and abort: "\<And>st. i_depth st < MAX_PLY env \<Longrightarrow> 1 < i_depth st
                  \<Longrightarrow> aborted (r_eng (idRoot env me st))
                  \<Longrightarrow> P st (st\<lparr>i_eng := r_eng (idRoot env me st), i_sd := r_sd (idRoot env me st)\<rparr>)"
    and last: "\<And>st. i_depth st < MAX_PLY env
                  \<Longrightarrow> \<not> (1 < i_depth st \<and> aborted (r_eng (idRoot env me st)))
                  \<Longrightarrow> P st (idAdopt env st (idRoot env me st))"
    and continue: "\<And>st res. i_depth st < MAX_PLY env
                  \<Longrightarrow> \<not> (1 < i_depth st \<and> aborted (r_eng (idRoot env me st)))
                  \<Longrightarrow> P ((idAdopt env st (idRoot env me st))\<lparr>i_depth := i_depth st + 1\<rparr>) res
                  \<Longrightarrow> P st res"
  shows "P st (idLoop env me st)"
proof -
  have "nat (MAX_PLY env - i_depth st) = n \<Longrightarrow> P st (idLoop env me st)" for n
  proof (induction n arbitrary: st)
    case 0
    then have "MAX_PLY env \<le> i_depth st" by simp
    then show ?case by (subst idLoop_step) (simp add: stop)
  next
    case (Suc n)
    then have lt: "i_depth st < MAX_PLY env" by simp
    let ?r = "idRoot env me st"
    let ?next = "(idAdopt env st ?r)\<lparr>i_depth := i_depth st + 1\<rparr>"
    show ?case
    proof (cases "1 < i_depth st \<and> aborted (r_eng ?r)")
      case True
      with lt abort [of st] show ?thesis
        by (subst idLoop_step) (auto simp add: Let_def)
    next
      case False
      show ?thesis
      proof (cases "0 < maxDepth (limits (r_sd ?r)) \<and> maxDepth (limits (r_sd ?r)) \<le> i_depth st")
        case True
        with lt False last [of st] show ?thesis
          by (subst idLoop_step) (auto simp add: Let_def)
      next
        case nomax: False
        have "nat (MAX_PLY env - i_depth ?next) = n"
          using Suc.prems by (simp add: idAdopt_def)
        then have "P ?next (idLoop env me ?next)" by (rule Suc.IH)
        with lt False have "P st (idLoop env me ?next)" by (rule continue)
        with lt False nomax show ?thesis
          by (subst idLoop_step) (auto simp add: Let_def)
      qed
    qed
  qed
  then show ?thesis by blast
qed

lemma idRoot_searching [simp]: "searching (r_eng (idRoot env me st)) = searching (i_eng st)"
  by (simp add: idRoot_def)

lemma idLoop_searching: "searching (i_eng (idLoop env me st)) = searching (i_eng st)"
  by (rule idLoop_rule [where P = "\<lambda>st res. searching (i_eng res) = searching (i_eng st)"])
     (simp_all add: idAdopt_def)

lemma idLoop_out:
  "\<exists>more. i_out (idLoop env me st) = i_out st @ more
         \<and> (\<forall>x\<in>set more. \<exists>e. x = (OnSearchProgress e, searching (i_eng st)))"
  by (rule idLoop_rule [where P = "\<lambda>st res. \<exists>more. i_out res = i_out st @ more
         \<and> (\<forall>x\<in>set more. \<exists>e. x = (OnSearchProgress e, searching (i_eng st)))"])
     (auto simp add: idAdopt_def)

lemma idLoop_completedDepth:
  "i_completedDepth st \<le> i_depth st \<longrightarrow> i_completedDepth st \<le> i_completedDepth (idLoop env me st)"
  by (rule idLoop_rule [where P = "\<lambda>st res. i_completedDepth st \<le> i_depth st
          \<longrightarrow> i_completedDepth st \<le> i_completedDepth res"])
     (auto simp add: idAdopt_def)

lemma idLoop_lastProgress:
  "lastProgressMatches st \<longrightarrow> lastProgressMatches (idLoop env me st)"
  by (rule idLoop_rule [where P = "\<lambda>st res. lastProgressMatches st \<longrightarrow> lastProgressMatches res"])
     (auto simp add: idAdopt_def lastProgressMatches_def SearchEvent_def)

text \<open>
  The callback of the move loop of \<^verbatim>\<open>pvSearch\<close>, unfolded once, and the states of the loop.
\<close>

lemma updateBest_fst:
  "fst (updateBest beta move score ls) \<longleftrightarrow>
     \<not> aborted (l_eng ls)
     \<and> \<not> (score > l_bestScore ls \<and> score > l_alpha ls \<and> score \<ge> beta)"
  by (simp add: updateBest_def Let_def searchAborted_def)

lemma updateBest_alpha:
  "fst (updateBest beta move score ls) \<Longrightarrow>
     l_alpha (snd (updateBest beta move score ls)) =
       (if score > l_bestScore ls \<and> score > l_alpha ls then score else l_alpha ls)
     \<and> l_bestScore (snd (updateBest beta move score ls)) = max (l_bestScore ls) score"
  by (simp add: updateBest_def Let_def searchAborted_def split: if_splits)

lemma pvVisit_unfold:
  assumes "\<not> skipsMove nt (l_sd ls) move"
  shows "let nbMoves = Suc (l_nbMoves ls);
             a = l_alpha ls;
             scout = scoutSearch env me depth ply move ls;
             full = fullSearch env me nt beta depth ply move ls;
             doScout = (\<not> PvNode nt \<or> nbMoves > 1);
             doFull = (PvNode nt \<and> (nbMoves = 1 \<or> (- r_score scout > a
                          \<and> (RootNode nt \<or> - r_score scout < beta))));
             res = (if doFull then full else scout)
         in pvVisit env me nt beta depth ply move ls =
              updateBest beta move (- r_score res)
                (ls\<lparr>l_eng := r_eng res, l_sd := unmakeMove env (r_sd res) move,
                     l_nbMoves := nbMoves, l_childPv := r_pv res,
                     l_acts := l_acts ls @ [DoMove move]
                       @ (if doScout
                          then [CallPv NonPV (- a - 1) (- a) (depth - 1) (ply + 1) (r_acts scout)]
                          else [])
                       @ (if doFull
                          then [CallPv PV (- beta) (- a) (depth - 1) (ply + 1) (r_acts full)]
                          else [])
                       @ [UndoMove move]\<rparr>)"
proof (cases "\<not> PvNode nt \<or> Suc (l_nbMoves ls) > 1")
  case scouted: True
  show ?thesis
  proof (cases "PvNode nt \<and> (Suc (l_nbMoves ls) = 1
        \<or> (- r_score (scoutSearch env me depth ply move ls) > l_alpha ls
            \<and> (RootNode nt \<or> - r_score (scoutSearch env me depth ply move ls) < beta)))")
    case True
    with assms scouted show ?thesis
      by (simp add: pvVisit.simps Let_def scoutSearch_def fullSearch_def)
  next
    case False
    with assms scouted show ?thesis
      by (auto simp add: pvVisit.simps Let_def scoutSearch_def fullSearch_def)
  qed
next
  case False
  with assms show ?thesis
    by (auto simp add: pvVisit.simps Let_def scoutSearch_def fullSearch_def)
qed


lemma pvVisit_nbMoves:
  "l_nbMoves (snd (pvVisit env me nt beta depth ply m ls)) =
     (if skipsMove nt (l_sd ls) m then l_nbMoves ls else Suc (l_nbMoves ls))"
  using pvVisit_unfold [of nt ls m env me depth ply beta]
  by (simp add: pvVisit_skipped Let_def)

lemma pvStates_length: "length (pvStates env me nt beta depth ply moves ls) \<le> length moves"
  by (induction moves arbitrary: ls) (simp_all add: Let_def)

lemma pvStates_first: "moves \<noteq> [] \<Longrightarrow> pvStates env me nt beta depth ply moves ls \<noteq> [] \<and> pvStates env me nt beta depth ply moves ls ! 0 = ls"
  by (cases moves) simp_all

lemma pvStates_nonempty: "pvStates env me nt beta depth ply moves ls \<noteq> [] \<Longrightarrow> moves \<noteq> []"
  by (cases moves) simp_all

lemma pvStates_Suc:
  "Suc i < length (pvStates env me nt beta depth ply moves ls) \<Longrightarrow>
     fst (pvVisit env me nt beta depth ply (moves ! i) (pvStates env me nt beta depth ply moves ls ! i))
     \<and> pvStates env me nt beta depth ply moves ls ! Suc i = snd (pvVisit env me nt beta depth ply (moves ! i) (pvStates env me nt beta depth ply moves ls ! i))"
proof (induction moves arbitrary: ls i)
  case Nil
  then show ?case by simp
next
  case (Cons m ms)
  let ?v = "pvVisit env me nt beta depth ply m ls"
  from Cons.prems have f: "fst ?v" by (auto simp add: Let_def split: if_splits)
  then have sts: "pvStates env me nt beta depth ply (m # ms) ls = ls # pvStates env me nt beta depth ply ms (snd ?v)"
    by (simp add: Let_def)
  show ?case
  proof (cases i)
    case 0
    from Cons.prems sts have "pvStates env me nt beta depth ply ms (snd ?v) \<noteq> []" by auto
    then have "ms \<noteq> []" by (rule pvStates_nonempty)
    then have "pvStates env me nt beta depth ply ms (snd ?v) ! 0 = snd ?v" by (simp add: pvStates_first)
    with f sts 0 show ?thesis by simp
  next
    case (Suc j)
    from Cons.prems sts Suc have "Suc j < length (pvStates env me nt beta depth ply ms (snd ?v))" by simp
    from Cons.IH [OF this] sts Suc show ?thesis by simp
  qed
qed

lemma pvStates_stop:
  "length (pvStates env me nt beta depth ply moves ls) < length moves \<Longrightarrow>
     pvStates env me nt beta depth ply moves ls \<noteq> []
     \<and> \<not> fst (pvVisit env me nt beta depth ply (moves ! (length (pvStates env me nt beta depth ply moves ls) - 1)) (last (pvStates env me nt beta depth ply moves ls)))"
proof (induction moves arbitrary: ls)
  case Nil
  then show ?case by simp
next
  case (Cons m ms)
  let ?v = "pvVisit env me nt beta depth ply m ls"
  show ?case
  proof (cases "fst ?v")
    case False
    then show ?thesis by (simp add: Let_def)
  next
    case True
    then have sts: "pvStates env me nt beta depth ply (m # ms) ls = ls # pvStates env me nt beta depth ply ms (snd ?v)"
      by (simp add: Let_def)
    with Cons.prems have "length (pvStates env me nt beta depth ply ms (snd ?v)) < length ms" by simp
    from Cons.IH [OF this] have ih: "pvStates env me nt beta depth ply ms (snd ?v) \<noteq> []"
      "\<not> fst (pvVisit env me nt beta depth ply (ms ! (length (pvStates env me nt beta depth ply ms (snd ?v)) - 1)) (last (pvStates env me nt beta depth ply ms (snd ?v))))"
      by simp_all
    from ih(1) obtain k where k: "length (pvStates env me nt beta depth ply ms (snd ?v)) = Suc k"
      by (cases "pvStates env me nt beta depth ply ms (snd ?v)") simp_all
    from ih k sts show ?thesis by simp
  qed
qed

lemma pvStates_count:
  "i < length (pvStates env me nt beta depth ply moves ls) \<Longrightarrow>
     l_nbMoves (pvStates env me nt beta depth ply moves ls ! i) =
       l_nbMoves ls + length (filter (\<lambda>(m, s). \<not> skipsMove nt (l_sd s) m)
                                (take i (zip moves (pvStates env me nt beta depth ply moves ls))))"
proof (induction moves arbitrary: ls i)
  case Nil
  then show ?case by simp
next
  case (Cons m ms)
  let ?v = "pvVisit env me nt beta depth ply m ls"
  show ?case
  proof (cases i)
    case 0
    then show ?thesis by simp
  next
    case (Suc j)
    with Cons.prems have f: "fst ?v" by (auto simp add: Let_def split: if_splits)
    then have sts: "pvStates env me nt beta depth ply (m # ms) ls = ls # pvStates env me nt beta depth ply ms (snd ?v)"
      by (simp add: Let_def)
    from Cons.prems sts Suc have "j < length (pvStates env me nt beta depth ply ms (snd ?v))" by simp
    from Cons.IH [OF this] sts Suc show ?thesis
      by (simp add: pvVisit_nbMoves)
  qed
qed

lemma pvLoop_blocks:
  assumes "\<And>m s. l_acts (snd (pvVisit env me nt beta depth ply m s)) = l_acts s @ block (m, s)"
  shows "l_acts (pvLoop env me nt beta depth ply moves ls) = l_acts ls @ concat (map block (zip moves (pvStates env me nt beta depth ply moves ls)))"
proof (induction moves arbitrary: ls)
  case Nil
  then show ?case by (simp add: pvLoop.simps)
next
  case (Cons m ms)
  show ?case
  proof (cases "fst (pvVisit env me nt beta depth ply m ls)")
    case True
    with Cons.IH [of "snd (pvVisit env me nt beta depth ply m ls)"] assms [of m ls] show ?thesis
      by (simp add: pvLoop.simps Let_def)
  next
    case False
    with assms [of m ls] show ?thesis
      by (simp add: pvLoop.simps Let_def)
  qed
qed

text \<open>
  One iteration of the loop of \<^verbatim>\<open>idSearch\<close>: the guard of line 290 discards the result
  exactly when \<open>depth > 1\<close> and the search is aborted, and an iteration that is not
  discarded is adopted as best line, best score and completed depth and reported. The
  events of a search: the progress events of the loop, at most one more, and one finish
  event, all emitted while \<open>searching\<close> is set.
\<close>

lemma idLoop_adopts:
  assumes "i_depth st < MAX_PLY env"
    and "\<not> (1 < i_depth st \<and> aborted (r_eng (idRoot env me st)))"
  shows "(idLoop env me st = idAdopt env st (idRoot env me st)
          \<or> idLoop env me st =
              idLoop env me ((idAdopt env st (idRoot env me st))\<lparr>i_depth := i_depth st + 1\<rparr>))
       \<and> i_bestPv (idAdopt env st (idRoot env me st)) = r_pv (idRoot env me st)
       \<and> i_bestScore (idAdopt env st (idRoot env me st)) = r_score (idRoot env me st)
       \<and> i_completedDepth (idAdopt env st (idRoot env me st)) = i_depth st"
proof -
  let ?r = "idRoot env me st"
  let ?ad = "idAdopt env st ?r"
  have "idLoop env me st = ?ad
        \<or> idLoop env me st = idLoop env me (?ad\<lparr>i_depth := i_depth st + 1\<rparr>)"
  proof (cases "0 < maxDepth (limits (r_sd ?r)) \<and> maxDepth (limits (r_sd ?r)) \<le> i_depth st")
    case True
    with assms have "idLoop env me st = ?ad"
      by (intro trans [OF idLoop_step]) (auto simp add: Let_def)
    then show ?thesis by simp
  next
    case False
    with assms have "idLoop env me st = idLoop env me (?ad\<lparr>i_depth := i_depth st + 1\<rparr>)"
      by (intro trans [OF idLoop_step]) (auto simp add: Let_def)
    then show ?thesis by simp
  qed
  then show ?thesis by (simp add: idAdopt_def)
qed

lemma idLoop_iteration:
  "(i_depth st < MAX_PLY env \<longrightarrow>
      (let r = pvSearch env me Root (i_eng st) (i_sd st) (- SCORE_INFINITE env)
                 (SCORE_INFINITE env) (i_depth st) 0;
           res = idLoop env me st
       in (1 < i_depth st \<and> aborted (r_eng r) \<longrightarrow>
             i_bestPv res = i_bestPv st \<and> i_bestScore res = i_bestScore st
             \<and> i_completedDepth res = i_completedDepth st \<and> i_out res = i_out st
             \<and> i_depth res = i_depth st)
        \<and> (\<not> (1 < i_depth st \<and> aborted (r_eng r)) \<longrightarrow>
             (\<exists>more. i_out res = i_out st @
                (OnSearchProgress
                   (SearchEvent env (i_depth st) (r_pv r) (r_score r) (r_eng r) (r_sd r)),
                 searching (i_eng st)) # more)
             \<and> i_depth st \<le> i_completedDepth res)))
   \<and> (1 < MAX_PLY env \<longrightarrow>
      (let r = pvSearch env me Root eng sd (- SCORE_INFINITE env) (SCORE_INFINITE env) 1 0
       in \<exists>more. snd (idSearch env me eng sd) =
            (OnSearchProgress (SearchEvent env 1 (r_pv r) (r_score r) (r_eng r) (r_sd r)),
             searching eng) # more))"
proof -
  have step: "(1 < i_depth st \<and> aborted (r_eng (idRoot env me st)) \<longrightarrow>
             i_bestPv (idLoop env me st) = i_bestPv st
             \<and> i_bestScore (idLoop env me st) = i_bestScore st
             \<and> i_completedDepth (idLoop env me st) = i_completedDepth st
             \<and> i_out (idLoop env me st) = i_out st
             \<and> i_depth (idLoop env me st) = i_depth st)
        \<and> (\<not> (1 < i_depth st \<and> aborted (r_eng (idRoot env me st))) \<longrightarrow>
             (\<exists>more. i_out (idLoop env me st) = i_out st @
                (OnSearchProgress
                   (SearchEvent env (i_depth st) (r_pv (idRoot env me st))
                      (r_score (idRoot env me st)) (r_eng (idRoot env me st))
                      (r_sd (idRoot env me st))),
                 searching (i_eng st)) # more)
             \<and> i_depth st \<le> i_completedDepth (idLoop env me st))"
    if lt: "i_depth st < MAX_PLY env" for st :: "('a, 'b, 'c) idState"
  proof -
    let ?r = "idRoot env me st"
    let ?ad = "idAdopt env st ?r"
    let ?next = "?ad\<lparr>i_depth := i_depth st + 1\<rparr>"
    have a: "1 < i_depth st \<and> aborted (r_eng ?r) \<Longrightarrow>
          idLoop env me st = st\<lparr>i_eng := r_eng ?r, i_sd := r_sd ?r\<rparr>"
      using lt by (intro trans [OF idLoop_step]) (simp add: Let_def)
    have b: "idLoop env me st = ?ad \<or> idLoop env me st = idLoop env me ?next"
      if "\<not> (1 < i_depth st \<and> aborted (r_eng ?r))"
    proof (cases "0 < maxDepth (limits (r_sd ?r)) \<and> maxDepth (limits (r_sd ?r)) \<le> i_depth st")
      case True
      with lt that have "idLoop env me st = ?ad"
        by (intro trans [OF idLoop_step]) (auto simp add: Let_def)
      then show ?thesis by simp
    next
      case False
      with lt that have "idLoop env me st = idLoop env me ?next"
        by (intro trans [OF idLoop_step]) (auto simp add: Let_def)
      then show ?thesis by simp
    qed
    obtain more where more: "i_out (idLoop env me ?next) = i_out ?next @ more"
      using idLoop_out [of env me ?next] by blast
    have cd: "i_completedDepth ?next \<le> i_completedDepth (idLoop env me ?next)"
      using idLoop_completedDepth [of ?next env me] by (simp add: idAdopt_def)
    have adopted: "\<not> (1 < i_depth st \<and> aborted (r_eng ?r)) \<Longrightarrow>
         (\<exists>more. i_out (idLoop env me st) = i_out st @
                (OnSearchProgress
                   (SearchEvent env (i_depth st) (r_pv ?r) (r_score ?r) (r_eng ?r) (r_sd ?r)),
                 searching (i_eng st)) # more)
             \<and> i_depth st \<le> i_completedDepth (idLoop env me st)"
      using b more cd by (auto simp add: idAdopt_def)
    from a adopted show ?thesis by auto
  qed
  have first: "\<exists>more. snd (idSearch env me eng sd) =
            (OnSearchProgress (SearchEvent env 1
                (r_pv (pvSearch env me Root eng sd (- SCORE_INFINITE env) (SCORE_INFINITE env) 1 0))
                (r_score (pvSearch env me Root eng sd (- SCORE_INFINITE env) (SCORE_INFINITE env) 1 0))
                (r_eng (pvSearch env me Root eng sd (- SCORE_INFINITE env) (SCORE_INFINITE env) 1 0))
                (r_sd (pvSearch env me Root eng sd (- SCORE_INFINITE env) (SCORE_INFINITE env) 1 0))),
             searching eng) # more"
    if lt: "1 < MAX_PLY env"
  proof -
    let ?st = "idInit env eng sd"
    let ?r = "pvSearch env me Root eng sd (- SCORE_INFINITE env) (SCORE_INFINITE env) 1 0"
    have r: "idRoot env me ?st = ?r" by (simp add: idRoot_def idInit_def)
    from lt have "i_depth ?st < MAX_PLY env" by (simp add: idInit_def)
    from step [OF this] obtain more where
      "i_out (idLoop env me ?st) = i_out ?st @ (OnSearchProgress (SearchEvent env (i_depth ?st)
                (r_pv (idRoot env me ?st)) (r_score (idRoot env me ?st))
                (r_eng (idRoot env me ?st)) (r_sd (idRoot env me ?st))),
             searching (i_eng ?st)) # more"
      by (auto simp add: idInit_def)
    then have "i_out (idLoop env me ?st) = (OnSearchProgress (SearchEvent env 1
                (r_pv ?r) (r_score ?r) (r_eng ?r) (r_sd ?r)), searching eng) # more"
      by (simp add: r) (simp add: idInit_def)
    then show ?thesis
      by (simp add: idSearch_def Let_def)
  qed
  from step first show ?thesis
    by (simp add: Let_def idRoot_def)
qed

lemma idSearch_events:
  "let st = idLoop env me (idInit env eng sd);
       event = SearchEvent env (i_depth st) (i_bestPv st) (i_bestScore st) (i_eng st) (i_sd st)
   in snd (idSearch env me eng sd) =
        i_out st
        @ (if i_depth st \<noteq> i_completedDepth st then [(OnSearchProgress event, searching eng)]
           else [])
        @ [(OnSearchFinish event, searching eng)]
    \<and> (\<forall>x\<in>set (i_out st). \<exists>e. x = (OnSearchProgress e, searching eng))
    \<and> lastProgressMatches st
    \<and> ev_pv event = i_bestPv st \<and> ev_score event = i_bestScore st
    \<and> ev_depth event = i_depth st
    \<and> searching (fst (idSearch env me eng sd)) = False"
proof -
  let ?st = "idLoop env me (idInit env eng sd)"
  have s: "searching (i_eng ?st) = searching eng"
    by (simp add: idLoop_searching idInit_def)
  have o: "\<forall>x\<in>set (i_out ?st). \<exists>e. x = (OnSearchProgress e, searching eng)"
    using idLoop_out [of env me "idInit env eng sd"] by (auto simp add: idInit_def)
  have l: "lastProgressMatches ?st"
    using idLoop_lastProgress [of "idInit env eng sd" env me]
    by (simp add: lastProgressMatches_def idInit_def)
  from s o l show ?thesis
    by (simp add: idSearch_def Let_def idInit_def SearchEvent_def)
qed

text \<open>A call that leaves before line 348 makes no probe.\<close>

lemma pvSearch_no_probe:
  assumes "\<not> reachesProbe env nt eng sd depth ply"
  shows "r_acts (pvSearch env me nt eng sd alpha beta depth ply)
           \<noteq> [Probe (pos_hash env (position sd))]"
  using assms
  apply (subst pvSearch.simps)
  apply (auto simp add: Let_def reachesProbe_def abortsAtEntry_def qAbortsAtEntry_def
      searchAborted_def)
  done


section \<open>The claims\<close>

subsection \<open>C1: no move at a node\<close>

text \<open>
  C1. A call of \<open>pvSearch\<close> that reaches the move loop, in which no move is counted
  (\<^verbatim>\<open>nbMoves == 0\<close>: the picker yields nothing, or every move it yields is skipped by the
  test of \<^verbatim>\<open>searchmoves\<close>) and in which the search has not been aborted, returns exactly
  \<open>- SCORE_MATE + ply\<close> when the side to move is in check and \<open>SCORE_DRAW\<close> otherwise.
  The condition on \<open>aborted\<close> is needed: line 398 returns \<^verbatim>\<open>bestScore\<close> before the test of
  \<^verbatim>\<open>nbMoves\<close> at line 401 (see the counterexample below).
\<close>

theorem C1_no_move_terminal:
  assumes "reachesProbe env nt eng sd depth ply"
    and "\<not> ttCutoff env nt (tt eng) (pos_hash env (position sd)) alpha beta depth ply"
    and "\<forall>m\<in>set (mp_enumerate env MAIN me (position sd)
                   (ttHint env (tt eng) (pos_hash env (position sd)))). skipsMove nt sd m"
    and "\<not> aborted eng"
  shows "r_score (pvSearch env me nt eng sd alpha beta depth ply) =
           (if pos_inCheck env (position sd) then - SCORE_MATE env + ply else SCORE_DRAW env)"
  using assms
  apply (subst pvSearch.simps)
  apply (auto simp add: Let_def reachesProbe_def abortsAtEntry_def qAbortsAtEntry_def ttCutoff_def
      searchAborted_def pvLoop_all_skipped)
  done

text \<open>A stalemate at the root, not aborted: the score is \<open>SCORE_DRAW\<close>.\<close>

theorem C1_witness:
  "reachesProbe stalemateEnv Root (demoEngine False True) (demoData stalemateEnv 0 0 0 []) 1 0
   \<and> \<not> ttCutoff stalemateEnv Root (tt (demoEngine False True))
         (pos_hash stalemateEnv (position (demoData stalemateEnv 0 0 0 []))) (- 32001) 32001 1 0
   \<and> mp_enumerate stalemateEnv MAIN WHITE (position (demoData stalemateEnv 0 0 0 []))
        (ttHint stalemateEnv (tt (demoEngine False True))
           (pos_hash stalemateEnv (position (demoData stalemateEnv 0 0 0 [])))) = []
   \<and> \<not> aborted (demoEngine False True)
   \<and> r_score (pvSearch stalemateEnv WHITE Root (demoEngine False True)
        (demoData stalemateEnv 0 0 0 []) (- 32001) 32001 1 0) = SCORE_DRAW stalemateEnv"
proof -
  let ?env = stalemateEnv
  let ?eng = "demoEngine False True"
  let ?sd = "demoData stalemateEnv 0 0 0 []"
  let ?h = "pos_hash ?env (position ?sd)"
  have h1: "reachesProbe ?env Root ?eng ?sd 1 0" by code_simp
  have h2: "\<not> ttCutoff ?env Root (tt ?eng) ?h (- 32001) 32001 1 0" by code_simp
  have m: "mp_enumerate ?env MAIN WHITE (position ?sd) (ttHint ?env (tt ?eng) ?h) = []"
    by code_simp
  then have h3: "\<forall>m\<in>set (mp_enumerate ?env MAIN WHITE (position ?sd) (ttHint ?env (tt ?eng) ?h)).
                  skipsMove Root ?sd m"
    by simp
  have h4: "\<not> aborted ?eng" by code_simp
  have c: "r_score (pvSearch ?env WHITE Root ?eng ?sd (- 32001) 32001 1 0) =
             (if pos_inCheck ?env (position ?sd) then - SCORE_MATE ?env + 0 else SCORE_DRAW ?env)"
    by (rule C1_no_move_terminal [OF h1 h2 h3 h4])
  have v: "\<not> pos_inCheck ?env (position ?sd)" by code_simp
  from h1 h2 m h4 c v show ?thesis by simp
qed

text \<open>
  The same stalemate with \<open>aborted\<close> set when the root is searched: the move loop is
  reached (the picker is built) and no move is counted, the side to move is not in check,
  and the call returns \<open>- SCORE_INFINITE\<close>, not \<open>SCORE_DRAW\<close>.
\<close>

theorem C1_counterexample:
  "r_acts (pvSearch stalemateEnv WHITE Root (demoEngine True True)
       (demoData stalemateEnv 0 0 0 []) (- 32001) 32001 1 0) = [Probe 0, Enumerate MAIN 0]
   \<and> nbNodes (r_sd (pvSearch stalemateEnv WHITE Root (demoEngine True True)
       (demoData stalemateEnv 0 0 0 []) (- 32001) 32001 1 0)) = 0
   \<and> \<not> pos_inCheck stalemateEnv (position (demoData stalemateEnv 0 0 0 []))
   \<and> r_score (pvSearch stalemateEnv WHITE Root (demoEngine True True)
       (demoData stalemateEnv 0 0 0 []) (- 32001) 32001 1 0) = - SCORE_INFINITE stalemateEnv
   \<and> r_score (pvSearch stalemateEnv WHITE Root (demoEngine True True)
       (demoData stalemateEnv 0 0 0 []) (- 32001) 32001 1 0) \<noteq> SCORE_DRAW stalemateEnv"
  by code_simp

subsection \<open>C2: drawn positions\<close>

text \<open>
  C2. At a position where one of the three draw predicates holds, every call of
  \<open>pvSearch\<close> and every call of \<open>qSearch\<close> that is not aborted at entry returns
  \<open>SCORE_DRAW\<close>. (A root call with positive depth has no abort exit at entry and returns
  \<open>SCORE_DRAW\<close> whatever the flag.)
\<close>

theorem C2_draw:
  assumes "isDraw env (position sd)"
  shows "(\<not> abortsAtEntry env nt eng sd depth \<longrightarrow>
            r_score (pvSearch env me nt eng sd alpha beta depth ply) = SCORE_DRAW env)
       \<and> (\<not> qAbortsAtEntry env eng sd \<longrightarrow>
            r_score (qSearch env me eng sd alpha beta depth ply) = SCORE_DRAW env)"
proof (intro conjI impI)
  assume na: "\<not> abortsAtEntry env nt eng sd depth"
  show "r_score (pvSearch env me nt eng sd alpha beta depth ply) = SCORE_DRAW env"
  proof (cases "depth \<le> 0")
    case True
    with na have "\<not> qAbortsAtEntry env eng sd" by (simp add: abortsAtEntry_def)
    with assms True show ?thesis
      by (subst pvSearch.simps) (simp add: Let_def qSearch_draw)
  next
    case False
    with na assms show ?thesis
      by (subst pvSearch.simps)
         (auto simp add: Let_def abortsAtEntry_def qAbortsAtEntry_def searchAborted_def)
  qed
next
  assume "\<not> qAbortsAtEntry env eng sd"
  with assms show "r_score (qSearch env me eng sd alpha beta depth ply) = SCORE_DRAW env"
    by (rule qSearch_draw)
qed

text \<open>A drawn position, searched as a PV node of depth 2 and by the quiescence search.\<close>

theorem C2_witness:
  "isDraw drawnCheckEnv (position (demoData drawnCheckEnv 0 0 0 []))
   \<and> \<not> abortsAtEntry drawnCheckEnv PV (demoEngine False True) (demoData drawnCheckEnv 0 0 0 []) 2
   \<and> \<not> qAbortsAtEntry drawnCheckEnv (demoEngine False True) (demoData drawnCheckEnv 0 0 0 [])
   \<and> r_score (pvSearch drawnCheckEnv BLACK PV (demoEngine False True)
        (demoData drawnCheckEnv 0 0 0 []) (- 5) 5 2 1) = SCORE_DRAW drawnCheckEnv
   \<and> r_score (qSearch drawnCheckEnv BLACK (demoEngine False True)
        (demoData drawnCheckEnv 0 0 0 []) (- 5) 5 0 1) = SCORE_DRAW drawnCheckEnv"
proof -
  let ?env = drawnCheckEnv
  let ?eng = "demoEngine False True"
  let ?sd = "demoData drawnCheckEnv 0 0 0 []"
  have h1: "isDraw ?env (position ?sd)" by code_simp
  have h2: "\<not> abortsAtEntry ?env PV ?eng ?sd 2" by code_simp
  have h3: "\<not> qAbortsAtEntry ?env ?eng ?sd" by code_simp
  note t = C2_draw [OF h1, where nt = PV and eng = ?eng and depth = 2]
  from t h2 have c1: "r_score (pvSearch ?env BLACK PV ?eng ?sd (- 5) 5 2 1) = SCORE_DRAW ?env"
    by blast
  note u = C2_draw [OF h1, where eng = ?eng]
  from u h3 have c2: "r_score (qSearch ?env BLACK ?eng ?sd (- 5) 5 0 1) = SCORE_DRAW ?env"
    by blast
  from h1 h2 h3 c1 c2 show ?thesis by blast
qed

subsection \<open>C3: the transposition-table cutoff\<close>

text \<open>
  C3. A call of \<open>pvSearch\<close> is cut off by the table (it makes the probe and nothing else: no
  move picker, no child search, no store) exactly when it reaches the probe of line 348,
  the node is not a PV node, the probe hit, the stored depth is at least the depth, the
  stored score read at this ply is not \<open>SCORE_NONE\<close> and \<open>boundMatch(alpha, beta, ply)\<close>
  holds. A call that is cut off returns the stored score and leaves the table and the node
  count as they were; a call that reaches the probe and is not cut off builds the move
  picker. At a PV node, the root included, the call is never cut off.
\<close>

theorem C3_tt_cutoff:
  "(r_acts (pvSearch env me nt eng sd alpha beta depth ply)
            = [Probe (pos_hash env (position sd))]
          \<longleftrightarrow>
          (reachesProbe env nt eng sd depth ply
           \<and> \<not> PvNode nt
           \<and> fst (tt_get env (tt eng) (pos_hash env (position sd)))
           \<and> tte_depth env (tt eng) (snd (tt_get env (tt eng) (pos_hash env (position sd)))) \<ge> depth
           \<and> tte_score env (tt eng) (snd (tt_get env (tt eng) (pos_hash env (position sd)))) ply
               \<noteq> SCORE_NONE env
           \<and> tte_boundMatch env (tt eng) (snd (tt_get env (tt eng) (pos_hash env (position sd))))
               alpha beta ply))
       \<and> (r_acts (pvSearch env me nt eng sd alpha beta depth ply)
            = [Probe (pos_hash env (position sd))]
          \<longrightarrow> r_score (pvSearch env me nt eng sd alpha beta depth ply)
                = tte_score env (tt eng) (snd (tt_get env (tt eng) (pos_hash env (position sd)))) ply
              \<and> tt (r_eng (pvSearch env me nt eng sd alpha beta depth ply)) = tt eng
              \<and> nbNodes (r_sd (pvSearch env me nt eng sd alpha beta depth ply)) = nbNodes sd)
       \<and> (reachesProbe env nt eng sd depth ply
          \<and> r_acts (pvSearch env me nt eng sd alpha beta depth ply)
            \<noteq> [Probe (pos_hash env (position sd))]
          \<longrightarrow> (\<exists>more. r_acts (pvSearch env me nt eng sd alpha beta depth ply)
                = [Probe (pos_hash env (position sd)),
                   Enumerate MAIN (ttHint env (tt eng) (pos_hash env (position sd)))] @ more))
       \<and> (PvNode nt \<longrightarrow> r_acts (pvSearch env me nt eng sd alpha beta depth ply)
            \<noteq> [Probe (pos_hash env (position sd))])"
proof (cases "reachesProbe env nt eng sd depth ply")
  case False
  then show ?thesis using pvSearch_no_probe [of env nt eng sd depth ply me alpha beta] by simp
next
  case rp: True
  let ?h = "pos_hash env (position sd)"
  let ?r = "pvSearch env me nt eng sd alpha beta depth ply"
  let ?cut = "ttCutoff env nt (tt eng) ?h alpha beta depth ply"
  let ?pre = "[Probe ?h, Enumerate MAIN (ttHint env (tt eng) ?h)]"
  have cut: "?cut \<Longrightarrow> r_acts ?r = [Probe ?h]
      \<and> r_score ?r = tte_score env (tt eng) (snd (tt_get env (tt eng) ?h)) ply
      \<and> tt (r_eng ?r) = tt eng \<and> nbNodes (r_sd ?r) = nbNodes sd"
    using rp
    apply (subst pvSearch.simps)+
    apply (auto simp add: Let_def reachesProbe_def abortsAtEntry_def qAbortsAtEntry_def
        ttCutoff_def searchAborted_def)
    done
  have nocut: "\<not> ?cut \<Longrightarrow> \<exists>more. r_acts ?r = ?pre @ more"
  proof -
    assume nc: "\<not> ?cut"
    define ls where "ls = pvLoop env me nt beta depth ply
        (mp_enumerate env MAIN me (position sd) (ttHint env (tt eng) ?h))
        \<lparr>l_eng = eng, l_sd = (if \<not> RootNode nt then tick sd else sd), l_nbMoves = 0,
          l_bestScore = - SCORE_INFINITE env, l_bestMove = MOVE_NONE env,
          l_alpha = alpha, l_pv = [], l_childPv = [], l_acts = ?pre\<rparr>"
    have "\<exists>more. l_acts ls = ?pre @ more"
      unfolding ls_def by (rule pvLoop_acts_prefix [where mid = "[]"]) simp
    then obtain more where more: "l_acts ls = ?pre @ more" by blast
    have "r_acts ?r = l_acts ls \<or> (\<exists>x. r_acts ?r = l_acts ls @ [x])"
      using rp nc unfolding ls_def
      apply (subst pvSearch.simps)+
      apply (auto simp add: Let_def reachesProbe_def abortsAtEntry_def qAbortsAtEntry_def
          ttCutoff_def searchAborted_def)
      done
    with more show ?thesis by auto
  qed
  have pv: "PvNode nt \<Longrightarrow> \<not> ?cut" by (simp add: ttCutoff_def)
  from cut nocut pv rp show ?thesis
    unfolding ttCutoff_def by (cases ?cut) (auto simp add: ttCutoff_def)
qed

text \<open>
  Where every probe hits a matching entry of depth 5 and score 42: a NonPV node of depth 3
  is cut off with score 42, a PV node is not and builds the move picker.
\<close>

theorem C3_witness:
  "r_acts (pvSearch ttHitEnv BLACK NonPV (demoEngine False True)
        (demoData ttHitEnv 0 0 0 []) 0 1 3 1) = [Probe 0]
   \<and> r_score (pvSearch ttHitEnv BLACK NonPV (demoEngine False True)
        (demoData ttHitEnv 0 0 0 []) 0 1 3 1) = 42
   \<and> PvNode PV
   \<and> r_acts (pvSearch ttHitEnv BLACK PV (demoEngine False True)
        (demoData ttHitEnv 0 0 0 []) 0 1 3 1) \<noteq> [Probe 0]
   \<and> reachesProbe ttHitEnv PV (demoEngine False True) (demoData ttHitEnv 0 0 0 []) 3 1
   \<and> take 2 (r_acts (pvSearch ttHitEnv BLACK PV (demoEngine False True)
        (demoData ttHitEnv 0 0 0 []) 0 1 3 1)) = [Probe 0, Enumerate MAIN 2]"
proof -
  let ?env = ttHitEnv
  let ?eng = "demoEngine False True"
  let ?sd = "demoData ttHitEnv 0 0 0 []"
  let ?h = "pos_hash ?env (position ?sd)"
  let ?cut = "pvSearch ?env BLACK NonPV ?eng ?sd 0 1 3 1"
  let ?pv = "pvSearch ?env BLACK PV ?eng ?sd 0 1 3 1"
  have h2: "reachesProbe ?env PV ?eng ?sd 3 1" by code_simp
  have hash: "?h = 0" by code_simp
  have hint: "ttHint ?env (tt ?eng) ?h = 2" by code_simp
  have stored: "tte_score ?env (tt ?eng) (snd (tt_get ?env (tt ?eng) ?h)) 1 = 42" by code_simp
  have a: "r_acts ?cut = [Probe ?h]" by code_simp
  note t1 = C3_tt_cutoff [of ?env BLACK NonPV ?eng ?sd 0 1 3 1]
  from t1 a have "r_score ?cut = tte_score ?env (tt ?eng) (snd (tt_get ?env (tt ?eng) ?h)) 1"
    by blast
  with stored have s: "r_score ?cut = 42" by simp
  have p: "PvNode PV" by code_simp
  note t2 = C3_tt_cutoff [of ?env BLACK PV ?eng ?sd 0 1 3 1]
  from t2 p have n: "r_acts ?pv \<noteq> [Probe ?h]" by blast
  from t2 h2 n obtain more where
    "r_acts ?pv = [Probe ?h, Enumerate MAIN (ttHint ?env (tt ?eng) ?h)] @ more" by blast
  then have pre: "take 2 (r_acts ?pv) = [Probe 0, Enumerate MAIN 2]"
    using hash hint by simp
  from h2 a s p n hash pre show ?thesis by simp
qed

subsection \<open>C4: the scout and the full-window search\<close>

text \<open>
  C4. In a call of \<open>pvSearch\<close> that reaches its move loop, the callback is called for every
  move the picker yields until it returns \<^verbatim>\<open>false\<close>. A move that passes the test of
  \<^verbatim>\<open>searchmoves\<close> is counted, and \<open>nbMoves\<close>, the count that includes it, is one more than
  the number of moves counted before it. Between making and unmaking a counted move the
  call performs a scout search, at \<open>NonPV\<close> with window \<open>(- alpha - 1, - alpha)\<close>, if and only
  if the node is not a PV node or \<open>nbMoves > 1\<close>, and then a full-window search, at \<open>PV\<close> with
  window \<open>(- beta, - alpha)\<close>, if and only if the node is a PV node and \<open>nbMoves = 1\<close>, or the
  node is a PV node and the scout's score is above \<open>alpha\<close> and the node is the root or that
  score is below \<open>beta\<close>. It performs no other search: the history of the call is the
  probe, the picker, these blocks in the order of the moves, and at most the final store.
  Both searches run at depth \<open>depth - 1\<close> and ply \<open>ply + 1\<close>, on the engine and search data
  that the search before them left; \<open>alpha\<close> is the running one, which starts as the
  \<open>alpha\<close> of the call and is raised to the score of a move when that score is above the
  best score and above \<open>alpha\<close>. The loop ends before the last move only when a counted
  move left the search aborted or raised \<open>alpha\<close> to \<open>beta\<close> or more.

  A move that the test of \<^verbatim>\<open>searchmoves\<close> skips (line 361) is yielded and not searched at
  all, so the claim does not hold for every yielded move (see the counterexample below).
\<close>

theorem C4_pvs_scheme:
  assumes "reachesProbe env nt eng sd depth ply"
    and "\<not> ttCutoff env nt (tt eng) (pos_hash env (position sd)) alpha beta depth ply"
  shows
    "let moves = mp_enumerate env MAIN me (position sd)
                   (ttHint env (tt eng) (pos_hash env (position sd)));
         start = pvStart env nt eng sd alpha;
         sts = pvStates env me nt beta depth ply moves start;
         counted = (\<lambda>(move, ls). \<not> skipsMove nt (l_sd ls) move);
         scout = (\<lambda>(move, ls). scoutSearch env me depth ply move ls);
         full = (\<lambda>(move, ls). fullSearch env me nt beta depth ply move ls);
         doScout = (\<lambda>(move, ls). \<not> PvNode nt \<or> Suc (l_nbMoves ls) > 1);
         doFull = (\<lambda>(move, ls). PvNode nt
                     \<and> (Suc (l_nbMoves ls) = 1
                        \<or> (- r_score (scout (move, ls)) > l_alpha ls
                           \<and> (RootNode nt \<or> - r_score (scout (move, ls)) < beta))));
         block = (\<lambda>(move, ls).
                    if counted (move, ls) then
                      [DoMove move]
                      @ (if doScout (move, ls) then
                           [CallPv NonPV (- l_alpha ls - 1) (- l_alpha ls) (depth - 1) (ply + 1)
                              (r_acts (scout (move, ls)))]
                         else [])
                      @ (if doFull (move, ls) then
                           [CallPv PV (- beta) (- l_alpha ls) (depth - 1) (ply + 1)
                              (r_acts (full (move, ls)))]
                         else [])
                      @ [UndoMove move]
                    else []);
         res = (\<lambda>v. if doFull v then full v else scout v)
     in (\<exists>tail. r_acts (pvSearch env me nt eng sd alpha beta depth ply) =
                   l_acts start @ concat (map block (zip moves sts)) @ tail
                 \<and> (tail = [] \<or> (\<exists>h b m s. tail = [Store h depth ply b m (SCORE_NONE env) s False])))
      \<and> length sts \<le> length moves
      \<and> (moves \<noteq> [] \<longrightarrow> sts \<noteq> [] \<and> sts ! 0 = start)
      \<and> (\<forall>i<length sts.
            l_nbMoves (sts ! i) = length (filter counted (take i (zip moves sts)))
            \<and> (Suc i < length sts \<longrightarrow>
                 (let v = (moves ! i, sts ! i);
                      score = - r_score (res v)
                  in if counted v then
                       l_eng (sts ! Suc i) = r_eng (res v)
                       \<and> l_sd (sts ! Suc i) = unmakeMove env (r_sd (res v)) (moves ! i)
                       \<and> l_alpha (sts ! Suc i) =
                           (if score > l_bestScore (sts ! i) \<and> score > l_alpha (sts ! i)
                            then score else l_alpha (sts ! i))
                       \<and> l_bestScore (sts ! Suc i) = max (l_bestScore (sts ! i)) score
                       \<and> \<not> aborted (r_eng (res v))
                       \<and> \<not> (score > l_bestScore (sts ! i) \<and> score > l_alpha (sts ! i)
                            \<and> score \<ge> beta)
                     else sts ! Suc i = sts ! i)))
      \<and> (length sts < length moves \<longrightarrow>
            sts \<noteq> []
            \<and> (let v = (moves ! (length sts - 1), last sts);
                    score = - r_score (res v)
                in counted v
                   \<and> (aborted (r_eng (res v))
                      \<or> (score > l_bestScore (last sts) \<and> score > l_alpha (last sts)
                         \<and> score \<ge> beta))))"
proof -
  let ?moves = "mp_enumerate env MAIN me (position sd)
                   (ttHint env (tt eng) (pos_hash env (position sd)))"
  let ?start = "pvStart env nt eng sd alpha"
  let ?sts = "pvStates env me nt beta depth ply ?moves ?start"
  let ?r = "pvSearch env me nt eng sd alpha beta depth ply"
  let ?counted = "\<lambda>(move, ls). \<not> skipsMove nt (l_sd ls) move"
  let ?scout = "\<lambda>(move, ls). scoutSearch env me depth ply move ls"
  let ?full = "\<lambda>(move, ls). fullSearch env me nt beta depth ply move ls"
  let ?doScout = "\<lambda>(move, ls). \<not> PvNode nt \<or> Suc (l_nbMoves ls) > 1"
  let ?doFull = "\<lambda>(move, ls). PvNode nt
                     \<and> (Suc (l_nbMoves ls) = 1
                        \<or> (- r_score (?scout (move, ls)) > l_alpha ls
                           \<and> (RootNode nt \<or> - r_score (?scout (move, ls)) < beta)))"
  let ?block = "\<lambda>(move, ls).
                    if ?counted (move, ls) then
                      [DoMove move]
                      @ (if ?doScout (move, ls) then
                           [CallPv NonPV (- l_alpha ls - 1) (- l_alpha ls) (depth - 1) (ply + 1)
                              (r_acts (?scout (move, ls)))]
                         else [])
                      @ (if ?doFull (move, ls) then
                           [CallPv PV (- beta) (- l_alpha ls) (depth - 1) (ply + 1)
                              (r_acts (?full (move, ls)))]
                         else [])
                      @ [UndoMove move]
                    else []"
  let ?res = "\<lambda>v. if ?doFull v then ?full v else ?scout v"
  have visit: "pvVisit env me nt beta depth ply m s =
      updateBest beta m (- r_score (?res (m, s)))
        (s\<lparr>l_eng := r_eng (?res (m, s)), l_sd := unmakeMove env (r_sd (?res (m, s))) m,
           l_nbMoves := Suc (l_nbMoves s), l_childPv := r_pv (?res (m, s)),
           l_acts := l_acts s @ ?block (m, s)\<rparr>)"
    if "\<not> skipsMove nt (l_sd s) m" for m s
    by (simp only: pvVisit_unfold [OF that, unfolded Let_def] case_prod_conv that simp_thms
        if_True)
  have blk: "l_acts (snd (pvVisit env me nt beta depth ply m s)) = l_acts s @ ?block (m, s)"
    for m s
  proof (cases "skipsMove nt (l_sd s) m")
    case True
    then show ?thesis by (simp add: pvVisit_skipped)
  next
    case False
    from visit [OF False] show ?thesis by simp
  qed
  have loop: "l_acts (pvLoop env me nt beta depth ply ?moves ?start) =
                l_acts ?start @ concat (map ?block (zip ?moves ?sts))"
    by (rule pvLoop_blocks [where block = ?block, OF blk])
  have r: "r_acts ?r = l_acts (pvLoop env me nt beta depth ply ?moves ?start)
           \<or> (\<exists>h b m s. r_acts ?r = l_acts (pvLoop env me nt beta depth ply ?moves ?start)
                  @ [Store h depth ply b m (SCORE_NONE env) s False])"
    using assms
    apply (subst pvSearch.simps)+
    apply (auto simp add: Let_def reachesProbe_def abortsAtEntry_def qAbortsAtEntry_def
        ttCutoff_def searchAborted_def pvStart_def)
    done
  have c1: "\<exists>tail. r_acts ?r = l_acts ?start @ concat (map ?block (zip ?moves ?sts)) @ tail
              \<and> (tail = [] \<or> (\<exists>h b m s. tail = [Store h depth ply b m (SCORE_NONE env) s False]))"
    using r loop by auto
  have c2: "length ?sts \<le> length ?moves" by (rule pvStates_length)
  have c3: "?moves \<noteq> [] \<longrightarrow> ?sts \<noteq> [] \<and> ?sts ! 0 = ?start"
    by (simp add: pvStates_first)
  have c4a: "l_nbMoves (?sts ! i) = length (filter ?counted (take i (zip ?moves ?sts)))"
    if "i < length ?sts" for i
    using pvStates_count [OF that] by (simp add: pvStart_def)
  have cont: "let v = (m, s);
                  score = - r_score (?res v)
              in if ?counted v then
                   l_eng nx = r_eng (?res v)
                   \<and> l_sd nx = unmakeMove env (r_sd (?res v)) m
                   \<and> l_alpha nx =
                       (if score > l_bestScore s \<and> score > l_alpha s then score else l_alpha s)
                   \<and> l_bestScore nx = max (l_bestScore s) score
                   \<and> \<not> aborted (r_eng (?res v))
                   \<and> \<not> (score > l_bestScore s \<and> score > l_alpha s \<and> score \<ge> beta)
                 else nx = s"
    if f: "fst (pvVisit env me nt beta depth ply m s)"
      and n: "nx = snd (pvVisit env me nt beta depth ply m s)" for m s nx
  proof (cases "skipsMove nt (l_sd s) m")
    case True
    with n show ?thesis by (simp add: pvVisit_skipped)
  next
    case False
    note v = visit [OF False]
    from f v have f': "fst (updateBest beta m (- r_score (?res (m, s)))
        (s\<lparr>l_eng := r_eng (?res (m, s)), l_sd := unmakeMove env (r_sd (?res (m, s))) m,
           l_nbMoves := Suc (l_nbMoves s), l_childPv := r_pv (?res (m, s)),
           l_acts := l_acts s @ ?block (m, s)\<rparr>))"
      by simp
    from updateBest_alpha [OF f'] f' [unfolded updateBest_fst] n v False
    show ?thesis by (simp add: Let_def)
  qed
  have stopped: "let v = (m, s);
                     score = - r_score (?res v)
                 in ?counted v
                    \<and> (aborted (r_eng (?res v))
                       \<or> (score > l_bestScore s \<and> score > l_alpha s \<and> score \<ge> beta))"
    if nf: "\<not> fst (pvVisit env me nt beta depth ply m s)" for m s
  proof -
    from nf have ns: "\<not> skipsMove nt (l_sd s) m"
      by (auto simp add: pvVisit_skipped)
    from nf visit [OF ns] have "\<not> fst (updateBest beta m (- r_score (?res (m, s)))
        (s\<lparr>l_eng := r_eng (?res (m, s)), l_sd := unmakeMove env (r_sd (?res (m, s))) m,
           l_nbMoves := Suc (l_nbMoves s), l_childPv := r_pv (?res (m, s)),
           l_acts := l_acts s @ ?block (m, s)\<rparr>))"
      by simp
    from this [unfolded updateBest_fst] ns show ?thesis
      by (auto simp add: Let_def split: if_splits)
  qed
  have c4b: "let v = (?moves ! i, ?sts ! i);
                 score = - r_score (?res v)
             in if ?counted v then
                  l_eng (?sts ! Suc i) = r_eng (?res v)
                  \<and> l_sd (?sts ! Suc i) = unmakeMove env (r_sd (?res v)) (?moves ! i)
                  \<and> l_alpha (?sts ! Suc i) =
                      (if score > l_bestScore (?sts ! i) \<and> score > l_alpha (?sts ! i)
                       then score else l_alpha (?sts ! i))
                  \<and> l_bestScore (?sts ! Suc i) = max (l_bestScore (?sts ! i)) score
                  \<and> \<not> aborted (r_eng (?res v))
                  \<and> \<not> (score > l_bestScore (?sts ! i) \<and> score > l_alpha (?sts ! i)
                       \<and> score \<ge> beta)
                else ?sts ! Suc i = ?sts ! i"
    if "Suc i < length ?sts" for i
  proof -
    from pvStates_Suc [OF that]
    have f: "fst (pvVisit env me nt beta depth ply (?moves ! i) (?sts ! i))"
      and n: "?sts ! Suc i = snd (pvVisit env me nt beta depth ply (?moves ! i) (?sts ! i))"
      by blast+
    show ?thesis by (rule cont [OF f n])
  qed
  have c5: "?sts \<noteq> []
            \<and> (let v = (?moves ! (length ?sts - 1), last ?sts);
                    score = - r_score (?res v)
                in ?counted v
                   \<and> (aborted (r_eng (?res v))
                      \<or> (score > l_bestScore (last ?sts) \<and> score > l_alpha (last ?sts)
                         \<and> score \<ge> beta)))"
    if "length ?sts < length ?moves"
  proof -
    from pvStates_stop [OF that] have ne: "?sts \<noteq> []"
      and nf: "\<not> fst (pvVisit env me nt beta depth ply (?moves ! (length ?sts - 1)) (last ?sts))"
      by blast+
    from ne stopped [OF nf] show ?thesis by (rule conjI)
  qed
  from c1 c2 c3 c4a c4b c5 show ?thesis
    unfolding Let_def by blast
qed

text \<open>
  The root of a position with the legal moves 1 and 2, searched to depth 1 with the full
  window. Move 1 is the first counted move of a PV node and gets the full-window search
  only; it raises \<open>alpha\<close> to 10. Move 2 is the second counted move: it is scouted with
  window \<open>(-11, -10)\<close>, the scout returns 20, and it is searched again with window
  \<open>(-32001, -10)\<close>.
\<close>

theorem C4_witness:
  "reachesProbe twoMovesEnv Root (demoEngine False True) (demoData twoMovesEnv 0 0 0 []) 1 0
   \<and> \<not> ttCutoff twoMovesEnv Root (tt (demoEngine False True))
         (pos_hash twoMovesEnv (position (demoData twoMovesEnv 0 0 0 []))) (- 32001) 32001 1 0
   \<and> l_nbMoves (pvStates twoMovesEnv WHITE Root 32001 1 0
        (mp_enumerate twoMovesEnv MAIN WHITE (position (demoData twoMovesEnv 0 0 0 []))
           (ttHint twoMovesEnv (tt (demoEngine False True))
              (pos_hash twoMovesEnv (position (demoData twoMovesEnv 0 0 0 [])))))
        (pvStart twoMovesEnv Root (demoEngine False True) (demoData twoMovesEnv 0 0 0 [])
           (- 32001)) ! 1) = 1
   \<and> (\<exists>tail. r_acts (pvSearch twoMovesEnv WHITE Root (demoEngine False True)
                 (demoData twoMovesEnv 0 0 0 []) (- 32001) 32001 1 0) =
         [Probe 0, Enumerate MAIN 0,
          DoMove 1,
          CallPv PV (- 32001) 32001 0 1
            [CallQ (- 32001) 32001 0 1
              [Evaluate, Probe 1, Enumerate QUIESCENCE 0,
               Store 1 0 1 BOUND_EXACT 0 (- 10) (- 10) False]],
          UndoMove 1,
          DoMove 2,
          CallPv NonPV (- 11) (- 10) 0 1
            [CallQ (- 11) (- 10) 0 1
              [Evaluate, Probe 2, Enumerate QUIESCENCE 0,
               Store 2 0 1 BOUND_UPPER 0 (- 20) (- 20) False]],
          CallPv PV (- 32001) (- 10) 0 1
            [CallQ (- 32001) (- 10) 0 1
              [Evaluate, Probe 2, Enumerate QUIESCENCE 0,
               Store 2 0 1 BOUND_EXACT 0 (- 20) (- 20) False]],
          UndoMove 2] @ tail)"
proof -
  let ?env = twoMovesEnv
  let ?eng = "demoEngine False True"
  let ?sd = "demoData twoMovesEnv 0 0 0 []"
  let ?moves = "mp_enumerate ?env MAIN WHITE (position ?sd)
                  (ttHint ?env (tt ?eng) (pos_hash ?env (position ?sd)))"
  let ?sts = "pvStates ?env WHITE Root 32001 1 0 ?moves (pvStart ?env Root ?eng ?sd (- 32001))"
  have h1: "reachesProbe ?env Root ?eng ?sd 1 0" by code_simp
  have h2: "\<not> ttCutoff ?env Root (tt ?eng) (pos_hash ?env (position ?sd)) (- 32001) 32001 1 0"
    by code_simp
  note t = C4_pvs_scheme [OF h1 h2, where me = WHITE, unfolded Let_def]
  have len: "1 < length ?sts" by code_simp
  note n = t [THEN conjunct2, THEN conjunct2, THEN conjunct2, THEN conjunct1, rule_format,
      OF len, THEN conjunct1]
  have c1: "l_nbMoves (?sts ! 1) = 1"
    apply (subst n)
    apply code_simp
    done
  have c2: "\<exists>tail. r_acts (pvSearch ?env WHITE Root ?eng ?sd (- 32001) 32001 1 0) =
         [Probe 0, Enumerate MAIN 0,
          DoMove 1,
          CallPv PV (- 32001) 32001 0 1
            [CallQ (- 32001) 32001 0 1
              [Evaluate, Probe 1, Enumerate QUIESCENCE 0,
               Store 1 0 1 BOUND_EXACT 0 (- 10) (- 10) False]],
          UndoMove 1,
          DoMove 2,
          CallPv NonPV (- 11) (- 10) 0 1
            [CallQ (- 11) (- 10) 0 1
              [Evaluate, Probe 2, Enumerate QUIESCENCE 0,
               Store 2 0 1 BOUND_UPPER 0 (- 20) (- 20) False]],
          CallPv PV (- 32001) (- 10) 0 1
            [CallQ (- 32001) (- 10) 0 1
              [Evaluate, Probe 2, Enumerate QUIESCENCE 0,
               Store 2 0 1 BOUND_EXACT 0 (- 20) (- 20) False]],
          UndoMove 2] @ tail"
    apply (rule exE [OF t [THEN conjunct1]])
    apply (erule conjE)
    apply (thin_tac "_ \<or> _")
    apply (rule_tac x = x in exI)
    apply (erule ssubst)
    apply code_simp
    done
  from h1 h2 c1 c2 show ?thesis by blast
qed

text \<open>
  The same root with \<^verbatim>\<open>searchmoves\<close> holding move 1 only. The picker yields both moves, the
  node is a PV node, and when move 2 is yielded \<open>nbMoves\<close> is 1 (2 if it were counted), so
  the conditions of the claim call for a search of move 2. The history holds the
  full-window search of move 1 and no search of move 2.
\<close>

theorem C4_counterexample:
  "mp_enumerate twoMovesEnv MAIN WHITE (position (demoData twoMovesEnv 0 0 0 [1]))
      (ttHint twoMovesEnv (tt (demoEngine False True))
         (pos_hash twoMovesEnv (position (demoData twoMovesEnv 0 0 0 [1])))) = [1, 2]
   \<and> PvNode Root
   \<and> map l_nbMoves (pvStates twoMovesEnv WHITE Root 32001 1 0 [1, 2]
        (pvStart twoMovesEnv Root (demoEngine False True) (demoData twoMovesEnv 0 0 0 [1])
           (- 32001))) = [0, 1]
   \<and> r_acts (pvSearch twoMovesEnv WHITE Root (demoEngine False True)
        (demoData twoMovesEnv 0 0 0 [1]) (- 32001) 32001 1 0) =
       [Probe 0, Enumerate MAIN 0,
        DoMove 1,
        CallPv PV (- 32001) 32001 0 1
          [CallQ (- 32001) 32001 0 1
            [Evaluate, Probe 1, Enumerate QUIESCENCE 0,
             Store 1 0 1 BOUND_EXACT 0 (- 10) (- 10) False]],
        UndoMove 1,
        Store 0 1 0 BOUND_EXACT 1 32002 10 False]"
  by code_simp

subsection \<open>C5: standing pat\<close>

text \<open>
  C5. In a call of \<open>qSearch\<close> that reaches the standing-pat step (not aborted at entry,
  position not drawn, \<open>ply < MAX_PLY\<close>), the static evaluation is computed once when the
  side to move is not in check and not at all when it is in check. Not in check: if
  \<open>eval \<ge> beta\<close> the call returns \<open>eval\<close> at once (no probe, no move picker, no store);
  otherwise the loop starts with \<open>alpha\<close> raised to \<open>eval\<close> when \<open>eval > alpha\<close> (the window
  of the first child search shows it) and with \<open>bestScore = eval\<close> (the result is at least
  \<open>eval\<close>, and is \<open>eval\<close> when there is no move). In check: the loop starts with the \<open>alpha\<close>
  given and with \<open>bestScore = - SCORE_MATE + ply\<close>.
\<close>

theorem C5_standing_pat:
  assumes "qReachesStandPat env eng sd ply"
  shows "let pos = position sd;
             chk = pos_inCheck env pos;
             e = evaluate env me pos;
             h = pos_hash env pos;
             hint = ttHint env (tt eng) h;
             moves = mp_enumerate env QUIESCENCE me pos hint;
             r = qSearch env me eng sd alpha beta depth ply
         in count_list (r_acts r) Evaluate = (if chk then 0 else 1)
          \<and> (\<not> chk \<and> e \<ge> beta \<longrightarrow>
               r_score r = e \<and> r_acts r = [Evaluate] \<and> r_pv r = [] \<and> tt (r_eng r) = tt eng)
          \<and> (\<not> chk \<and> e < beta \<longrightarrow>
               (\<exists>more. r_acts r = [Evaluate, Probe h, Enumerate QUIESCENCE hint] @ more)
               \<and> e \<le> r_score r
               \<and> (moves = [] \<longrightarrow> r_score r = e)
               \<and> (\<forall>m rest. moves = m # rest \<longrightarrow>
                    (\<exists>sub more. r_acts r =
                       [Evaluate, Probe h, Enumerate QUIESCENCE hint, DoMove m,
                        CallQ (- beta) (- (if e > alpha then e else alpha)) (depth - 1) (ply + 1)
                          sub,
                        UndoMove m] @ more)))
          \<and> (chk \<longrightarrow>
               (\<exists>more. r_acts r = [Probe h, Enumerate QUIESCENCE hint] @ more)
               \<and> - SCORE_MATE env + ply \<le> r_score r
               \<and> (moves = [] \<longrightarrow> r_score r = - SCORE_MATE env + ply)
               \<and> (\<forall>m rest. moves = m # rest \<longrightarrow>
                    (\<exists>sub more. r_acts r =
                       [Probe h, Enumerate QUIESCENCE hint, DoMove m,
                        CallQ (- beta) (- alpha) (depth - 1) (ply + 1) sub,
                        UndoMove m] @ more)))"
proof -
  let ?pos = "position sd"
  let ?chk = "pos_inCheck env ?pos"
  let ?e = "evaluate env me ?pos"
  let ?h = "pos_hash env ?pos"
  let ?hint = "ttHint env (tt eng) ?h"
  let ?moves = "mp_enumerate env QUIESCENCE me ?pos ?hint"
  let ?r = "qSearch env me eng sd alpha beta depth ply"
  let ?a1 = "if \<not> ?chk \<and> ?e > alpha then ?e else alpha"
  let ?b0 = "if \<not> ?chk then ?e else - SCORE_MATE env + ply"
  let ?pre = "(if \<not> ?chk then [Evaluate] else []) @ [Probe ?h, Enumerate QUIESCENCE ?hint]"
  define init where "init = \<lparr>l_eng = eng, l_sd = tick sd, l_nbMoves = 0, l_bestScore = ?b0,
      l_bestMove = MOVE_NONE env, l_alpha = ?a1, l_pv = [], l_childPv = [], l_acts = ?pre\<rparr>"
  define ls where "ls = qLoop env me beta depth ply ?moves init"
  from assms have entry: "\<not> shouldStop env sd" "\<not> aborted eng" "\<not> isDraw env ?pos"
    "ply < MAX_PLY env"
    by (simp_all add: qReachesStandPat_def qAbortsAtEntry_def)
  have cutoff: "\<not> ?chk \<and> ?e \<ge> beta \<Longrightarrow>
      ?r = \<lparr>r_score = ?e, r_eng = eng, r_sd = tick sd, r_pv = [], r_acts = [Evaluate]\<rparr>"
    using entry by (subst qSearch.simps) (simp add: Let_def searchAborted_def)
  have loop: "?chk \<or> ?e < beta \<Longrightarrow>
      r_score ?r = l_bestScore ls \<and> (r_acts ?r = l_acts ls \<or> (\<exists>x. x \<noteq> Evaluate \<and> r_acts ?r = l_acts ls @ [x]))"
    using entry unfolding ls_def init_def
    by (subst qSearch.simps)+ (auto simp add: Let_def searchAborted_def)
  have pre: "\<exists>more. l_acts ls = ?pre @ more"
    unfolding ls_def by (rule qLoop_acts_prefix [where mid = "[]"]) (simp add: init_def)
  have cnt: "count_list (l_acts ls) Evaluate = (if ?chk then 0 else 1)"
    unfolding ls_def by (simp add: qLoop_count_Evaluate init_def)
  have best: "?b0 \<le> l_bestScore ls"
    unfolding ls_def by (rule qLoop_bestScore_ge) (simp add: init_def)
  have empty: "?moves = [] \<Longrightarrow> l_bestScore ls = ?b0"
    unfolding ls_def by (simp add: qLoop.simps init_def)
  have first: "?moves = m # rest \<Longrightarrow> \<exists>sub more. l_acts ls =
      ?pre @ [DoMove m, CallQ (- beta) (- ?a1) (depth - 1) (ply + 1) sub, UndoMove m] @ more"
    for m rest
    using qLoop_first_move [of env me beta depth ply m rest init]
    unfolding ls_def by (simp add: init_def)
  have c1: "count_list (r_acts ?r) Evaluate = (if ?chk then 0 else 1)"
  proof (cases "\<not> ?chk \<and> ?e \<ge> beta")
    case True
    with cutoff show ?thesis by simp
  next
    case False
    then have "?chk \<or> ?e < beta" by auto
    from loop [OF this] cnt show ?thesis by auto
  qed
  have c2: "\<not> ?chk \<and> ?e \<ge> beta \<longrightarrow>
      r_score ?r = ?e \<and> r_acts ?r = [Evaluate] \<and> r_pv ?r = [] \<and> tt (r_eng ?r) = tt eng"
    using cutoff by simp
  have c3: "\<not> ?chk \<and> ?e < beta \<longrightarrow>
       (\<exists>more. r_acts ?r = [Evaluate, Probe ?h, Enumerate QUIESCENCE ?hint] @ more)
       \<and> ?e \<le> r_score ?r
       \<and> (?moves = [] \<longrightarrow> r_score ?r = ?e)
       \<and> (\<forall>m rest. ?moves = m # rest \<longrightarrow>
            (\<exists>sub more. r_acts ?r =
               [Evaluate, Probe ?h, Enumerate QUIESCENCE ?hint, DoMove m,
                CallQ (- beta) (- (if ?e > alpha then ?e else alpha)) (depth - 1) (ply + 1) sub,
                UndoMove m] @ more))"
  proof (intro impI)
    assume a: "\<not> ?chk \<and> ?e < beta"
    then have l: "r_score ?r = l_bestScore ls"
      "r_acts ?r = l_acts ls \<or> (\<exists>x. x \<noteq> Evaluate \<and> r_acts ?r = l_acts ls @ [x])"
      using loop by auto
    from a pre l(2) have p1: "\<exists>more. r_acts ?r = [Evaluate, Probe ?h, Enumerate QUIESCENCE ?hint] @ more"
      by auto
    from a best l(1) have p2: "?e \<le> r_score ?r" by simp
    from a empty l(1) have p3: "?moves = [] \<longrightarrow> r_score ?r = ?e" by simp
    have p4: "\<forall>m rest. ?moves = m # rest \<longrightarrow>
            (\<exists>sub more. r_acts ?r =
               [Evaluate, Probe ?h, Enumerate QUIESCENCE ?hint, DoMove m,
                CallQ (- beta) (- (if ?e > alpha then ?e else alpha)) (depth - 1) (ply + 1) sub,
                UndoMove m] @ more)"
    proof (intro allI impI)
      fix m rest assume "?moves = m # rest"
      from first [OF this] a l(2) show "\<exists>sub more. r_acts ?r =
               [Evaluate, Probe ?h, Enumerate QUIESCENCE ?hint, DoMove m,
                CallQ (- beta) (- (if ?e > alpha then ?e else alpha)) (depth - 1) (ply + 1) sub,
                UndoMove m] @ more"
        by auto
    qed
    from p1 p2 p3 p4 show "(\<exists>more. r_acts ?r = [Evaluate, Probe ?h, Enumerate QUIESCENCE ?hint] @ more)
       \<and> ?e \<le> r_score ?r
       \<and> (?moves = [] \<longrightarrow> r_score ?r = ?e)
       \<and> (\<forall>m rest. ?moves = m # rest \<longrightarrow>
            (\<exists>sub more. r_acts ?r =
               [Evaluate, Probe ?h, Enumerate QUIESCENCE ?hint, DoMove m,
                CallQ (- beta) (- (if ?e > alpha then ?e else alpha)) (depth - 1) (ply + 1) sub,
                UndoMove m] @ more))"
      by blast
  qed
  have c4: "?chk \<longrightarrow>
       (\<exists>more. r_acts ?r = [Probe ?h, Enumerate QUIESCENCE ?hint] @ more)
       \<and> - SCORE_MATE env + ply \<le> r_score ?r
       \<and> (?moves = [] \<longrightarrow> r_score ?r = - SCORE_MATE env + ply)
       \<and> (\<forall>m rest. ?moves = m # rest \<longrightarrow>
            (\<exists>sub more. r_acts ?r =
               [Probe ?h, Enumerate QUIESCENCE ?hint, DoMove m,
                CallQ (- beta) (- alpha) (depth - 1) (ply + 1) sub,
                UndoMove m] @ more))"
  proof (intro impI)
    assume a: "?chk"
    then have l: "r_score ?r = l_bestScore ls"
      "r_acts ?r = l_acts ls \<or> (\<exists>x. x \<noteq> Evaluate \<and> r_acts ?r = l_acts ls @ [x])"
      using loop by auto
    from a pre l(2) have p1: "\<exists>more. r_acts ?r = [Probe ?h, Enumerate QUIESCENCE ?hint] @ more"
      by auto
    from a best l(1) have p2: "- SCORE_MATE env + ply \<le> r_score ?r" by simp
    from a empty l(1) have p3: "?moves = [] \<longrightarrow> r_score ?r = - SCORE_MATE env + ply" by simp
    have p4: "\<forall>m rest. ?moves = m # rest \<longrightarrow>
            (\<exists>sub more. r_acts ?r =
               [Probe ?h, Enumerate QUIESCENCE ?hint, DoMove m,
                CallQ (- beta) (- alpha) (depth - 1) (ply + 1) sub,
                UndoMove m] @ more)"
    proof (intro allI impI)
      fix m rest assume "?moves = m # rest"
      from first [OF this] a l(2) show "\<exists>sub more. r_acts ?r =
               [Probe ?h, Enumerate QUIESCENCE ?hint, DoMove m,
                CallQ (- beta) (- alpha) (depth - 1) (ply + 1) sub,
                UndoMove m] @ more"
        by auto
    qed
    from p1 p2 p3 p4 show "(\<exists>more. r_acts ?r = [Probe ?h, Enumerate QUIESCENCE ?hint] @ more)
       \<and> - SCORE_MATE env + ply \<le> r_score ?r
       \<and> (?moves = [] \<longrightarrow> r_score ?r = - SCORE_MATE env + ply)
       \<and> (\<forall>m rest. ?moves = m # rest \<longrightarrow>
            (\<exists>sub more. r_acts ?r =
               [Probe ?h, Enumerate QUIESCENCE ?hint, DoMove m,
                CallQ (- beta) (- alpha) (depth - 1) (ply + 1) sub,
                UndoMove m] @ more))"
      by blast
  qed
  from c1 c2 c3 c4 show ?thesis
    unfolding Let_def by blast
qed

text \<open>
  Not in check, evaluation 0 inside the window \<open>(-5, 5)\<close>, no capture: one evaluation, the
  result is the evaluation. In check with window \<open>(-5, 5)\<close>: no evaluation.
\<close>

theorem C5_witness:
  "qReachesStandPat twoMovesEnv (demoEngine False True) (demoData twoMovesEnv 0 0 0 []) 0
   \<and> \<not> pos_inCheck twoMovesEnv (position (demoData twoMovesEnv 0 0 0 []))
   \<and> count_list (r_acts (qSearch twoMovesEnv WHITE (demoEngine False True)
        (demoData twoMovesEnv 0 0 0 []) (- 5) 5 0 0)) Evaluate = 1
   \<and> r_acts (qSearch twoMovesEnv WHITE (demoEngine False True)
        (demoData twoMovesEnv 0 0 0 []) (- 5) 5 0 0) =
       [Evaluate, Probe 0, Enumerate QUIESCENCE 0, Store 0 0 0 BOUND_EXACT 0 0 0 False]
   \<and> r_score (qSearch twoMovesEnv WHITE (demoEngine False True)
        (demoData twoMovesEnv 0 0 0 []) (- 5) 5 0 0) = 0
   \<and> qReachesStandPat checkEnv (demoEngine False True) (demoData checkEnv 0 0 0 []) 0
   \<and> pos_inCheck checkEnv (position (demoData checkEnv 0 0 0 []))
   \<and> count_list (r_acts (qSearch checkEnv WHITE (demoEngine False True)
        (demoData checkEnv 0 0 0 []) (- 5) 5 0 0)) Evaluate = 0
   \<and> - SCORE_MATE checkEnv + 0 \<le> r_score (qSearch checkEnv WHITE (demoEngine False True)
        (demoData checkEnv 0 0 0 []) (- 5) 5 0 0)"
proof -
  let ?eng = "demoEngine False True"
  let ?sd = "demoData twoMovesEnv 0 0 0 []"
  let ?sdc = "demoData checkEnv 0 0 0 []"
  let ?q = "qSearch twoMovesEnv WHITE ?eng ?sd (- 5) 5 0 0"
  let ?qc = "qSearch checkEnv WHITE ?eng ?sdc (- 5) 5 0 0"
  have h1: "qReachesStandPat twoMovesEnv ?eng ?sd 0" by code_simp
  have h2: "qReachesStandPat checkEnv ?eng ?sdc 0" by code_simp
  have v1: "\<not> pos_inCheck twoMovesEnv (position ?sd)" by code_simp
  have v2: "pos_inCheck checkEnv (position ?sdc)" by code_simp
  note t1 = C5_standing_pat [OF h1, where me = WHITE and alpha = "- 5" and beta = 5
      and depth = 0, unfolded Let_def]
  note t2 = C5_standing_pat [OF h2, where me = WHITE and alpha = "- 5" and beta = 5
      and depth = 0, unfolded Let_def]
  from t1 v1 have c1: "count_list (r_acts ?q) Evaluate = 1" by simp
  from t2 v2 have c2: "count_list (r_acts ?qc) Evaluate = 0" by simp
  from t2 v2 have c3: "- SCORE_MATE checkEnv + 0 \<le> r_score ?qc" by simp
  have e1: "r_acts ?q = [Evaluate, Probe 0, Enumerate QUIESCENCE 0,
              Store 0 0 0 BOUND_EXACT 0 0 0 False]"
    by code_simp
  have e2: "r_score ?q = 0" by code_simp
  from h1 h2 v1 v2 c1 c2 c3 e1 e2 show ?thesis by blast
qed

subsection \<open>C6: the store at the end of the quiescence search\<close>

text \<open>
  C6. A call of \<open>qSearch\<close> that runs its move loop and is not aborted when the loop ends
  finishes with one store into the slot it probed: depth 1 if the side to move was in
  check and 0 otherwise, static evaluation the standing-pat evaluation when not in check
  and \<open>SCORE_NONE\<close> when in check, score the score returned, and bound \<open>LOWER\<close> if that
  score is at least \<open>beta\<close>, \<open>UPPER\<close> if it is at most the \<open>alpha\<close> the call was given,
  \<open>EXACT\<close> otherwise, whatever the kind of node.
\<close>

theorem C6_qsearch_tt_store:
  assumes "qReachesStandPat env eng sd ply"
    and "pos_inCheck env (position sd) \<or> evaluate env me (position sd) < beta"
    and "\<not> aborted (r_eng (qSearch env me eng sd alpha beta depth ply))"
  shows "let r = qSearch env me eng sd alpha beta depth ply;
             chk = pos_inCheck env (position sd);
             d = (if chk then 1 else 0);
             ev = (if chk then SCORE_NONE env else evaluate env me (position sd));
             bnd = (if r_score r \<ge> beta then BOUND_LOWER
                    else if r_score r \<le> alpha then BOUND_UPPER
                    else BOUND_EXACT);
             slot = snd (tt_get env (tt eng) (pos_hash env (position sd)))
         in \<exists>h2 mv table acts.
              r_acts r = acts @ [Store h2 d ply bnd mv ev (r_score r) False]
              \<and> tt (r_eng r) = tt_set env table slot h2 d ply bnd mv ev (r_score r) False"
  using assms
  apply (simp add: qSearch.simps Let_def qReachesStandPat_def qAbortsAtEntry_def
      searchAborted_def split: if_splits)
  apply blast+
  done

text \<open>Not in check, evaluation 0 inside \<open>(-5, 5)\<close>: depth 0, evaluation 0, bound \<open>EXACT\<close>.
  In check, the evasion found fails high: depth 1, evaluation \<open>SCORE_NONE\<close>, bound \<open>LOWER\<close>.\<close>

theorem C6_witness:
  "qReachesStandPat twoMovesEnv (demoEngine False True) (demoData twoMovesEnv 0 0 0 []) 0
   \<and> evaluate twoMovesEnv WHITE (position (demoData twoMovesEnv 0 0 0 [])) < 5
   \<and> \<not> aborted (r_eng (qSearch twoMovesEnv WHITE (demoEngine False True)
           (demoData twoMovesEnv 0 0 0 []) (- 5) 5 0 0))
   \<and> (\<exists>h2 mv table acts.
        r_acts (qSearch twoMovesEnv WHITE (demoEngine False True)
           (demoData twoMovesEnv 0 0 0 []) (- 5) 5 0 0) =
          acts @ [Store h2 0 0 BOUND_EXACT mv 0 0 False]
        \<and> tt (r_eng (qSearch twoMovesEnv WHITE (demoEngine False True)
           (demoData twoMovesEnv 0 0 0 []) (- 5) 5 0 0)) =
          tt_set twoMovesEnv table
            (snd (tt_get twoMovesEnv (tt (demoEngine False True))
               (pos_hash twoMovesEnv (position (demoData twoMovesEnv 0 0 0 [])))))
            h2 0 0 BOUND_EXACT mv 0 0 False)
   \<and> last (r_acts (qSearch twoMovesEnv WHITE (demoEngine False True)
        (demoData twoMovesEnv 0 0 0 []) (- 5) 5 0 0)) = Store 0 0 0 BOUND_EXACT 0 0 0 False
   \<and> last (r_acts (qSearch checkEnv WHITE (demoEngine False True)
        (demoData checkEnv 0 0 0 []) (- 5) 5 0 0)) = Store 0 1 0 BOUND_LOWER 1 32002 10 False"
proof -
  let ?env = twoMovesEnv
  let ?eng = "demoEngine False True"
  let ?sd = "demoData twoMovesEnv 0 0 0 []"
  let ?q = "qSearch ?env WHITE ?eng ?sd (- 5) 5 0 0"
  have h1: "qReachesStandPat ?env ?eng ?sd 0" by code_simp
  have lt: "evaluate ?env WHITE (position ?sd) < 5" by code_simp
  then have h2: "pos_inCheck ?env (position ?sd) \<or> evaluate ?env WHITE (position ?sd) < 5"
    by simp
  have h3: "\<not> aborted (r_eng ?q)" by code_simp
  note t = C6_qsearch_tt_store [OF h1 h2 h3, unfolded Let_def]
  have v: "\<not> pos_inCheck ?env (position ?sd)" "evaluate ?env WHITE (position ?sd) = 0"
    "r_score ?q = 0"
    by code_simp+
  from t v have ex: "\<exists>h2 mv table acts.
        r_acts ?q = acts @ [Store h2 0 0 BOUND_EXACT mv 0 0 False]
        \<and> tt (r_eng ?q) =
          tt_set ?env table (snd (tt_get ?env (tt ?eng) (pos_hash ?env (position ?sd))))
            h2 0 0 BOUND_EXACT mv 0 0 False"
    by simp
  have e1: "last (r_acts ?q) = Store 0 0 0 BOUND_EXACT 0 0 0 False" by code_simp
  have e2: "last (r_acts (qSearch checkEnv WHITE ?eng (demoData checkEnv 0 0 0 []) (- 5) 5 0 0))
              = Store 0 1 0 BOUND_LOWER 1 32002 10 False"
    by code_simp
  from h1 lt h3 ex e1 e2 show ?thesis by blast
qed

subsection \<open>C7: the first iteration under a limit\<close>

text \<open>
  C7. The guard of line 290 discards the result of an aborted iteration only when
  \<open>depth > 1\<close>, and the root skips the poll of the limits (lines 322-327), so that the
  iteration of depth 1 leaves a move to report under any limit. The children of the root
  do poll. When the limit is reached at the first child, the iteration of depth 1 is
  aborted before any move has a score; the root returns its initial best score with an
  empty line (line 398), and line 292 adopts that as the best line.

  The theorem runs \<open>search\<close> and the worker it starts on a position with two legal moves,
  neither in check nor drawn, with 40 ms on the clock (one millisecond is allotted): the
  best line is empty, the best score is \<open>- SCORE_INFINITE\<close>, and every event, the finish
  event included, offers no move. The same happens with a limit of one node.
\<close>

theorem C7_first_iteration_aborted:
  "(case search twoMovesEnv (demoEngine False False) (demoLimits 40 0 0 []) of
      (eng, None) \<Rightarrow> False
    | (eng, Some data) \<Rightarrow>
        mp_enumerate twoMovesEnv MAIN WHITE (position data) 0 = [1, 2]
        \<and> allocatedTime data = 1
        \<and> i_bestPv (idLoop twoMovesEnv WHITE (idInit twoMovesEnv eng data)) = []
        \<and> i_bestScore (idLoop twoMovesEnv WHITE (idInit twoMovesEnv eng data))
            = - SCORE_INFINITE twoMovesEnv
        \<and> i_completedDepth (idLoop twoMovesEnv WHITE (idInit twoMovesEnv eng data)) = 1
        \<and> snd (idSearch twoMovesEnv WHITE eng data) =
            [(OnSearchProgress \<lparr>ev_depth = 1, ev_pv = [], ev_score = - 32001, ev_nbNodes = 1,
                ev_elapsed = 2, ev_hashfull = 0\<rparr>, True),
             (OnSearchProgress \<lparr>ev_depth = 2, ev_pv = [], ev_score = - 32001, ev_nbNodes = 2,
                ev_elapsed = 3, ev_hashfull = 0\<rparr>, True),
             (OnSearchFinish \<lparr>ev_depth = 2, ev_pv = [], ev_score = - 32001, ev_nbNodes = 2,
                ev_elapsed = 3, ev_hashfull = 0\<rparr>, True)])
   \<and> (case search twoMovesEnv (demoEngine False False) (demoLimits 0 0 1 []) of
      (eng, None) \<Rightarrow> False
    | (eng, Some data) \<Rightarrow>
        i_bestPv (idLoop twoMovesEnv WHITE (idInit twoMovesEnv eng data)) = []
        \<and> i_completedDepth (idLoop twoMovesEnv WHITE (idInit twoMovesEnv eng data)) = 1)"
  by code_simp

subsection \<open>C8: the events at the exit of the iterative deepening\<close>

text \<open>
  C8. At its exit \<open>idSearch\<close> emits one more progress event if the depth the loop ended
  at differs from the completed depth, then one finish event, and clears \<open>searching\<close>
  after that. Line 301 builds this event with \<^verbatim>\<open>depth\<close>, the depth the loop ended at, where
  the event of the loop (line 296) reports the depth just completed: whenever the
  additional event is emitted, it and the finish event report a depth that was not
  accepted, with the line and the score of the last accepted one.

  The theorem runs \<open>search\<close> and the worker it starts on a position with two legal moves
  and a limit of three nodes. Depth 1 completes with line \<open>[2]\<close> and score 20, depth 2 is
  aborted and discarded; the additional progress event and the finish event report
  depth 2.
\<close>

theorem C8_finish_event_depth:
  "(case search twoMovesEnv (demoEngine False False) (demoLimits 0 0 3 []) of
      (eng, None) \<Rightarrow> False
    | (eng, Some data) \<Rightarrow>
        i_completedDepth (idLoop twoMovesEnv WHITE (idInit twoMovesEnv eng data)) = 1
        \<and> i_depth (idLoop twoMovesEnv WHITE (idInit twoMovesEnv eng data)) = 2
        \<and> snd (idSearch twoMovesEnv WHITE eng data) =
            [(OnSearchProgress \<lparr>ev_depth = 1, ev_pv = [2], ev_score = 20, ev_nbNodes = 2,
                ev_elapsed = 4, ev_hashfull = 4\<rparr>, True),
             (OnSearchProgress \<lparr>ev_depth = 2, ev_pv = [2], ev_score = 20, ev_nbNodes = 3,
                ev_elapsed = 5, ev_hashfull = 4\<rparr>, True),
             (OnSearchFinish \<lparr>ev_depth = 2, ev_pv = [2], ev_score = 20, ev_nbNodes = 3,
                ev_elapsed = 5, ev_hashfull = 4\<rparr>, True)])"
  by code_simp

subsection \<open>C9: the reentry guard of search\<close>

text \<open>
  C9. A call of \<open>search\<close> made while \<open>searching\<close> is set changes nothing (the table, the
  \<open>aborted\<close> flag and the position are as before) and starts no worker. A call made while
  \<open>searching\<close> is clear clears \<open>aborted\<close>, sets \<open>searching\<close>, clears the table and starts
  one worker on a fresh \<open>SearchData\<close> that holds the engine's position and the limits
  given, with a node count of zero.
\<close>

theorem C9_search_reentry:
  "(searching eng \<longrightarrow> search env eng lim = (eng, None))
   \<and> (\<not> searching eng \<longrightarrow>
        search env eng lim =
          (eng\<lparr>aborted := False, searching := True, tt := tt_clear env (tt eng)\<rparr>,
           Some (SearchData env (rootPosition eng) lim))
        \<and> position (SearchData env (rootPosition eng) lim) = rootPosition eng
        \<and> limits (SearchData env (rootPosition eng) lim) = lim
        \<and> nbNodes (SearchData env (rootPosition eng) lim) = 0)"
  by (simp add: search_def Let_def SearchData_def initAllocatedTime_def)

text \<open>Both cases on an engine whose table holds something (\<open>tt = 7\<close>).\<close>

theorem C9_witness:
  "searching ((demoEngine True True)\<lparr>tt := 7\<rparr>)
   \<and> search twoMovesEnv ((demoEngine True True)\<lparr>tt := 7\<rparr>) (demoLimits 0 0 0 []) =
       ((demoEngine True True)\<lparr>tt := 7\<rparr>, None)
   \<and> \<not> searching ((demoEngine True False)\<lparr>tt := 7\<rparr>)
   \<and> fst (search twoMovesEnv ((demoEngine True False)\<lparr>tt := 7\<rparr>) (demoLimits 0 0 0 [])) =
       \<lparr>rootPosition = [], tt = 0, aborted = False, searching = True\<rparr>
   \<and> snd (search twoMovesEnv ((demoEngine True False)\<lparr>tt := 7\<rparr>) (demoLimits 0 0 0 [])) =
       Some (SearchData twoMovesEnv [] (demoLimits 0 0 0 []))
   \<and> nbNodes (SearchData twoMovesEnv [] (demoLimits 0 0 0 [])) = 0"
proof -
  let ?busy = "(demoEngine True True)\<lparr>tt := 7\<rparr>"
  let ?idle = "(demoEngine True False)\<lparr>tt := 7\<rparr>"
  let ?lim = "demoLimits 0 0 0 []"
  have h1: "searching ?busy" by (simp add: demoEngine_def)
  have h2: "\<not> searching ?idle" by (simp add: demoEngine_def)
  note t1 = C9_search_reentry [where env = twoMovesEnv and eng = ?busy and lim = ?lim]
  note t2 = C9_search_reentry [where env = twoMovesEnv and eng = ?idle and lim = ?lim]
  from t1 h1 have c1: "search twoMovesEnv ?busy ?lim = (?busy, None)" by blast
  from t2 h2 have c2: "search twoMovesEnv ?idle ?lim =
      (?idle\<lparr>aborted := False, searching := True, tt := tt_clear twoMovesEnv (tt ?idle)\<rparr>,
       Some (SearchData twoMovesEnv (rootPosition ?idle) ?lim))"
    by blast
  from t2 h2 have c3: "nbNodes (SearchData twoMovesEnv (rootPosition ?idle) ?lim) = 0" by blast
  have e: "rootPosition ?idle = []"
    "?idle\<lparr>aborted := False, searching := True, tt := tt_clear twoMovesEnv (tt ?idle)\<rparr> =
       \<lparr>rootPosition = [], tt = 0, aborted = False, searching = True\<rparr>"
    by (simp_all add: demoEngine_def twoMovesEnv_def demoEnv_def)
  from h1 h2 c1 c2 c3 e show ?thesis by simp
qed

subsection \<open>C10: a searchmoves list without a legal move\<close>

text \<open>
  C10. At a root position that is not drawn, searched with positive depth while the
  search is not aborted: if \<^verbatim>\<open>limits.searchMoves\<close> is not empty and holds none of the moves
  the picker yields, every move is skipped before it is counted (no move is made, the
  node count does not change) and the root search returns \<open>- SCORE_MATE + 0\<close> when the
  side to move is in check and \<open>SCORE_DRAW\<close> otherwise, a mate or stalemate score although
  legal moves exist. The two conditions are needed: at a drawn position the call returns
  \<open>SCORE_DRAW\<close> before the loop, also in check (see the counterexample below), and when the
  search is aborted it returns \<open>- SCORE_INFINITE\<close> after the loop.
\<close>

theorem C10_searchmoves_without_legal_move:
  assumes "0 < depth" and "0 < MAX_PLY env" and "\<not> isDraw env (position sd)"
    and "\<not> aborted eng"
    and "searchMoves (limits sd) \<noteq> []"
    and "set (mp_enumerate env MAIN me (position sd)
                (ttHint env (tt eng) (pos_hash env (position sd))))
         \<inter> set (searchMoves (limits sd)) = {}"
  shows "r_score (pvSearch env me Root eng sd alpha beta depth 0) =
           (if pos_inCheck env (position sd) then - SCORE_MATE env + 0 else SCORE_DRAW env)
       \<and> nbNodes (r_sd (pvSearch env me Root eng sd alpha beta depth 0)) = nbNodes sd
       \<and> r_acts (pvSearch env me Root eng sd alpha beta depth 0) =
           [Probe (pos_hash env (position sd)),
            Enumerate MAIN (ttHint env (tt eng) (pos_hash env (position sd)))]"
proof -
  have sk: "\<forall>m\<in>set (mp_enumerate env MAIN me (position sd)
                   (ttHint env (tt eng) (pos_hash env (position sd)))). skipsMove Root sd m"
    using assms(5,6) by (rule disjoint_skips)
  show ?thesis
    using assms(1-4) sk
    apply (subst pvSearch.simps)+
    apply (simp add: Let_def RootNode_def PvNode_def searchAborted_def pvLoop_all_skipped)
    done
qed

text \<open>The root in check with the legal moves 1 and 2 and \<^verbatim>\<open>searchmoves\<close> = 9: the mate
  score.\<close>

theorem C10_witness:
  "(0::int) < 1 \<and> 0 < MAX_PLY checkEnv
   \<and> \<not> isDraw checkEnv (position (demoData checkEnv 0 0 0 [9]))
   \<and> \<not> aborted (demoEngine False True)
   \<and> searchMoves (limits (demoData checkEnv 0 0 0 [9])) = [9]
   \<and> mp_enumerate checkEnv MAIN WHITE (position (demoData checkEnv 0 0 0 [9]))
        (ttHint checkEnv (tt (demoEngine False True))
           (pos_hash checkEnv (position (demoData checkEnv 0 0 0 [9])))) = [1, 2]
   \<and> pos_inCheck checkEnv (position (demoData checkEnv 0 0 0 [9]))
   \<and> r_score (pvSearch checkEnv WHITE Root (demoEngine False True)
        (demoData checkEnv 0 0 0 [9]) (- 32001) 32001 1 0) = - SCORE_MATE checkEnv + 0
   \<and> nbNodes (r_sd (pvSearch checkEnv WHITE Root (demoEngine False True)
        (demoData checkEnv 0 0 0 [9]) (- 32001) 32001 1 0)) = 0"
proof -
  let ?env = checkEnv
  let ?eng = "demoEngine False True"
  let ?sd = "demoData checkEnv 0 0 0 [9]"
  let ?h = "pos_hash ?env (position ?sd)"
  let ?moves = "mp_enumerate ?env MAIN WHITE (position ?sd) (ttHint ?env (tt ?eng) ?h)"
  have h1: "(0::int) < 1" by simp
  have h2: "0 < MAX_PLY ?env" by code_simp
  have h3: "\<not> isDraw ?env (position ?sd)" by code_simp
  have h4: "\<not> aborted ?eng" by code_simp
  have sm: "searchMoves (limits ?sd) = [9]" by code_simp
  then have h5: "searchMoves (limits ?sd) \<noteq> []" by simp
  have mv: "?moves = [1, 2]" by code_simp
  with sm have h6: "set ?moves \<inter> set (searchMoves (limits ?sd)) = {}" by simp
  note t = C10_searchmoves_without_legal_move [OF h1 h2 h3 h4 h5 h6,
      where alpha = "- 32001" and beta = 32001]
  have chk: "pos_inCheck ?env (position ?sd)" by code_simp
  have n0: "nbNodes ?sd = 0" by code_simp
  from t chk n0 have c:
    "r_score (pvSearch ?env WHITE Root ?eng ?sd (- 32001) 32001 1 0) = - SCORE_MATE ?env + 0"
    "nbNodes (r_sd (pvSearch ?env WHITE Root ?eng ?sd (- 32001) 32001 1 0)) = 0"
    by simp_all
  from h1 h2 h3 h4 sm mv chk c show ?thesis by simp
qed

text \<open>
  The same root when it is also drawn by the fifty-move rule: legal moves exist, none is
  in \<^verbatim>\<open>searchmoves\<close>, the side to move is in check, and the call returns \<open>SCORE_DRAW\<close>
  without entering the loop, not \<open>- SCORE_MATE + 0\<close>.
\<close>

theorem C10_counterexample:
  "mp_enumerate drawnCheckEnv MAIN WHITE (position (demoData drawnCheckEnv 0 0 0 [9])) 0 = [1, 2]
   \<and> searchMoves (limits (demoData drawnCheckEnv 0 0 0 [9])) = [9]
   \<and> pos_inCheck drawnCheckEnv (position (demoData drawnCheckEnv 0 0 0 [9]))
   \<and> r_acts (pvSearch drawnCheckEnv WHITE Root (demoEngine False True)
        (demoData drawnCheckEnv 0 0 0 [9]) (- 32001) 32001 1 0) = []
   \<and> r_score (pvSearch drawnCheckEnv WHITE Root (demoEngine False True)
        (demoData drawnCheckEnv 0 0 0 [9]) (- 32001) 32001 1 0) = SCORE_DRAW drawnCheckEnv
   \<and> r_score (pvSearch drawnCheckEnv WHITE Root (demoEngine False True)
        (demoData drawnCheckEnv 0 0 0 [9]) (- 32001) 32001 1 0)
       \<noteq> - SCORE_MATE drawnCheckEnv + 0"
  by code_simp

end
